theory Spec2Isabelle
  imports Main "HOL-Library.Sublist"
begin


section \<open>Strings and the POSIX \<open>path\<close> module\<close>

text \<open>
  The servers (\<open>scripts/unified-server.js\<close>, \<open>scripts/mock-upload-server.js\<close>) build
  every filesystem path with Node's \<open>path\<close> module. Text is held as \<open>string\<close>, the
  bytes of its UTF-8 form, so \<open>length\<close> is what \<open>Buffer.byteLength(s, 'utf8')\<close> counts.
  The functions of this section are the POSIX variants of the Node functions the
  servers call; they work segment by segment on the pieces between slashes.
\<close>

definition startsWith :: "string \<Rightarrow> string \<Rightarrow> bool" where
  "startsWith s p = (take (length p) s = p)"

definition endsWith :: "string \<Rightarrow> string \<Rightarrow> bool" where
  "endsWith s p = (length p \<le> length s \<and> drop (length s - length p) s = p)"

text \<open>\<open>s.split('/')\<close>: the pieces between slashes, empty pieces included.\<close>

fun splitSlash :: "string \<Rightarrow> string list" where
  "splitSlash [] = [[]]"
| "splitSlash (c # cs) =
     (if c = CHR ''/'' then [] # splitSlash cs
      else (case splitSlash cs of [] \<Rightarrow> [[c]] | x # xs \<Rightarrow> (c # x) # xs))"

text \<open>\<open>segs.join('/')\<close>.\<close>

fun joinSlash :: "string list \<Rightarrow> string" where
  "joinSlash [] = []"
| "joinSlash [s] = s"
| "joinSlash (s # t # ts) = s @ CHR ''/'' # joinSlash (t # ts)"

text \<open>
  \<open>normalizeString(path, allowAboveRoot)\<close>: empty and \<open>.\<close> segments are dropped; a
  \<open>..\<close> segment removes the segment before it, unless there is none or it is itself
  \<open>..\<close>, when it is kept only if \<open>allowAboveRoot\<close>.
\<close>

fun normSegs :: "bool \<Rightarrow> string list \<Rightarrow> string list \<Rightarrow> string list" where
  "normSegs allow res [] = res"
| "normSegs allow res (s # ss) =
     (if s = [] \<or> s = ''.'' then normSegs allow res ss
      else if s = ''..'' then
        (if res \<noteq> [] \<and> last res \<noteq> ''..'' then normSegs allow (butlast res) ss
         else if allow then normSegs allow (res @ [''..'']) ss
         else normSegs allow res ss)
      else normSegs allow (res @ [s]) ss)"

definition normalizeString :: "string \<Rightarrow> bool \<Rightarrow> string" where
  "normalizeString p allow = joinSlash (normSegs allow [] (splitSlash p))"

definition isAbsolute :: "string \<Rightarrow> bool" where
  "isAbsolute p = (p \<noteq> [] \<and> hd p = CHR ''/'')"

text \<open>
  \<open>path.resolve(...args)\<close>: the arguments are taken from the right, empty ones skipped,
  until one is absolute; the working directory stands in when none is. The first argument
  of \<open>resolveLoop\<close> is the arguments in that order, working directory last.
\<close>

fun resolveLoop :: "string list \<Rightarrow> string \<Rightarrow> string \<times> bool" where
  "resolveLoop [] acc = (acc, False)"
| "resolveLoop (p # ps) acc =
     (if p = [] then resolveLoop ps acc
      else if hd p = CHR ''/'' then (p @ CHR ''/'' # acc, True)
      else resolveLoop ps (p @ CHR ''/'' # acc))"

definition resolve :: "string \<Rightarrow> string list \<Rightarrow> string" where
  "resolve wd args =
     (case resolveLoop (rev args @ [wd]) [] of
        (resolvedPath, resolvedAbsolute) \<Rightarrow>
          (let n = normalizeString resolvedPath (\<not> resolvedAbsolute)
           in if resolvedAbsolute then CHR ''/'' # n
              else if n \<noteq> [] then n else ''.''))"

text \<open>The segments of a resolved path: \<open>/a/b\<close> has \<open>a\<close> and \<open>b\<close>, \<open>/\<close> has none.\<close>

definition pathSegs :: "string \<Rightarrow> string list" where
  "pathSegs p = filter (\<lambda>s. s \<noteq> []) (splitSlash p)"

fun dropCommon :: "string list \<Rightarrow> string list \<Rightarrow> string list \<times> string list" where
  "dropCommon (x # xs) (y # ys) = (if x = y then dropCommon xs ys else (x # xs, y # ys))"
| "dropCommon xs ys = (xs, ys)"

text \<open>
  \<open>path.relative(from, to)\<close>: both are resolved; past their common leading segments,
  one \<open>..\<close> for each segment left of \<open>from\<close>, then the segments left of \<open>to\<close>.
\<close>

definition relative :: "string \<Rightarrow> string \<Rightarrow> string \<Rightarrow> string" where
  "relative wd from to =
     (if from = to then []
      else let f = resolve wd [from]; t = resolve wd [to]
           in if f = t then []
              else (case dropCommon (pathSegs f) (pathSegs t) of
                      (fs, ts) \<Rightarrow> joinSlash (map (\<lambda>_. ''..'') fs @ ts)))"

text \<open>\<open>path.basename(p)\<close>: trailing slashes are dropped, then what follows the last slash.\<close>

definition stripTrailingSlashes :: "string \<Rightarrow> string" where
  "stripTrailingSlashes p = rev (dropWhile (\<lambda>c. c = CHR ''/'') (rev p))"

definition basename :: "string \<Rightarrow> string" where
  "basename p = rev (takeWhile (\<lambda>c. c \<noteq> CHR ''/'') (rev (stripTrailingSlashes p)))"

text \<open>
  \<open>path.dirname(p)\<close>: scanning from the end down to index 1, \<open>end\<close> is the index of the
  first slash met after a character that is not one.
\<close>

definition dirname :: "string \<Rightarrow> string" where
  "dirname p =
     (if p = [] then ''.''
      else let hasRoot = (hd p = CHR ''/'');
               body = stripTrailingSlashes (tl p);
               keep = dropWhile (\<lambda>c. c \<noteq> CHR ''/'') (rev body)
           in if keep = [] then (if hasRoot then ''/'' else ''.'')
              else if hasRoot \<and> length keep = 1 then ''//''
              else hd p # rev (tl keep))"

text \<open>\<open>path.normalize(p)\<close> and \<open>path.join(...args)\<close>.\<close>

definition normalize :: "string \<Rightarrow> string" where
  "normalize p =
     (if p = [] then ''.''
      else let isAbs = (hd p = CHR ''/'');
               trailingSeparator = (last p = CHR ''/'');
               n = normalizeString p (\<not> isAbs)
           in if n = [] then (if isAbs then ''/'' else if trailingSeparator then ''./'' else ''.'')
              else (if isAbs then ''/'' else []) @ n @ (if trailingSeparator then ''/'' else []))"

definition join :: "string list \<Rightarrow> string" where
  "join args =
     (case filter (\<lambda>a. a \<noteq> []) args of
        [] \<Rightarrow> ''.''
      | nonempty \<Rightarrow> normalize (joinSlash nonempty))"

section \<open>The path guard\<close>

text \<open>
  \<open>isPathInside(parent, child)\<close>, the same in both servers. \<open>!!rel\<close> is true of a
  non-empty string. The working directory \<open>wd\<close> is what \<open>process.cwd()\<close> returns.
\<close>

definition isPathInside :: "string \<Rightarrow> string \<Rightarrow> string \<Rightarrow> bool" where
  "isPathInside wd parent child =
     (let rel = relative wd parent child
      in rel \<noteq> [] \<and> \<not> startsWith rel ''..'' \<and> \<not> isAbsolute rel)"

section \<open>Access control\<close>

text \<open>
  The configuration is read once at start: the working directory, \<open>BASE_DIR\<close> and
  \<open>REQ_TOKEN\<close> (\<open>process.env.UPLOAD_TOKEN || ''\<close>, so an unset token is the empty string).
\<close>

record config =
  cwd :: string
  BASE_DIR :: string
  REQ_TOKEN :: string

text \<open>
  \<open>authCheck(req, res)\<close>: \<open>hdr\<close> is \<open>req.get('authorization')\<close>, \<open>None\<close> when the header
  is absent (\<open>|| ''\<close> then gives the empty string). The 401 answer it sends on failure is
  sent by the handlers below.
\<close>

definition authCheck :: "config \<Rightarrow> string option \<Rightarrow> bool" where
  "authCheck cfg hdr =
     (if REQ_TOKEN cfg = [] then True
      else (case hdr of None \<Rightarrow> [] | Some a \<Rightarrow> a) = ''Bearer '' @ REQ_TOKEN cfg)"

section \<open>Request values\<close>

text \<open>
  A field of a JSON request body, as \<open>JSON.parse\<close> leaves it; \<open>JUndefined\<close> is an absent
  field. A number is held as the text \<open>String\<close> gives for it (\<open>0\<close> for zero; \<open>NaN\<close> is
  not JSON).
\<close>

datatype jsval =
    JUndefined
  | JNull
  | JBool bool
  | JNum string
  | JStr string
  | JArr "jsval list"
  | JObj "(string \<times> jsval) list"

fun truthy :: "jsval \<Rightarrow> bool" where
  "truthy JUndefined = False"
| "truthy JNull = False"
| "truthy (JBool b) = b"
| "truthy (JNum r) = (r \<noteq> ''0'')"
| "truthy (JStr s) = (s \<noteq> [])"
| "truthy (JArr xs) = True"
| "truthy (JObj kvs) = True"

text \<open>\<open>v || ''\<close>.\<close>

definition orEmpty :: "jsval \<Rightarrow> jsval" where
  "orEmpty v = (if truthy v then v else JStr [])"

fun joinComma :: "string list \<Rightarrow> string" where
  "joinComma [] = []"
| "joinComma [s] = s"
| "joinComma (s # t # ts) = s @ CHR '','' # joinComma (t # ts)"

text \<open>
  \<open>String(v)\<close>, \<open>None\<close> when it throws a \<open>TypeError\<close>: an array joins the strings of its
  elements with commas, \<open>null\<close> and \<open>undefined\<close> elements giving the empty string; an object
  is \<open>[object Object]\<close>, unless it has a member \<open>toString\<close> of its own, which hides
  \<open>Object.prototype.toString\<close> and is not callable, so that no primitive value is found.
\<close>

fun String :: "jsval \<Rightarrow> string option" where
  "String JUndefined = Some ''undefined''"
| "String JNull = Some ''null''"
| "String (JBool b) = Some (if b then ''true'' else ''false'')"
| "String (JNum r) = Some r"
| "String (JStr s) = Some s"
| "String (JArr xs) =
     map_option joinComma
       (those (map (\<lambda>x. if x = JUndefined \<or> x = JNull then Some [] else String x) xs))"
| "String (JObj kvs) =
     (if ''toString'' \<in> set (map fst kvs) then None else Some ''[object Object]'')"

section \<open>The file system\<close>

text \<open>
  The file system is a tree from the root directory \<open>/\<close>: a regular file with its content
  and modification time (milliseconds), a directory with its entries in the order
  \<open>readdir\<close> reports them, or a symbolic link with its target. A location is the list of
  names from the root. Devices, sockets and permissions are not part of the model: an
  operation fails only for the shape of the tree.
\<close>

datatype node =
    File string int
  | Dir "(string \<times> node) list"
  | Symlink string

datatype ioerr = ENOENT | ENOTDIR | EISDIR | EEXIST | ELOOP

fun get :: "node \<Rightarrow> string list \<Rightarrow> node option"
  and getIn :: "(string \<times> node) list \<Rightarrow> string \<Rightarrow> string list \<Rightarrow> node option" where
  "get t [] = Some t"
| "get (Dir es) (s # ss) = getIn es s ss"
| "get (File c m) (s # ss) = None"
| "get (Symlink l) (s # ss) = None"
| "getIn [] s ss = None"
| "getIn ((k, c) # es) s ss = (if k = s then get c ss else getIn es s ss)"

text \<open>\<open>put t loc new\<close> stores \<open>new\<close> at \<open>loc\<close>, as a new last entry of its directory when
  there is none of that name.\<close>

fun put :: "node \<Rightarrow> string list \<Rightarrow> node \<Rightarrow> node"
  and putIn :: "(string \<times> node) list \<Rightarrow> string \<Rightarrow> string list \<Rightarrow> node \<Rightarrow> (string \<times> node) list" where
  "put t [] new = new"
| "put (Dir es) (s # ss) new = Dir (putIn es s ss new)"
| "put (File c m) (s # ss) new = File c m"
| "put (Symlink l) (s # ss) new = Symlink l"
| "putIn [] s ss new = (if ss = [] then [(s, new)] else [])"
| "putIn ((k, c) # es) s ss new =
     (if k = s then (k, put c ss new) # es else (k, c) # putIn es s ss new)"

fun isDir :: "node option \<Rightarrow> bool" where
  "isDir (Some (Dir es)) = True"
| "isDir n = False"

text \<open>
  Path resolution as the kernel does it: from the location \<open>cur\<close> of a directory, name
  after name; a symbolic link is followed, at most \<open>fuel\<close> of them (Linux follows 40). The
  result is the location the path names: of an existing node, or of a missing last name
  in an existing directory.
\<close>

function walk :: "node \<Rightarrow> nat \<Rightarrow> string list \<Rightarrow> string list \<Rightarrow> ioerr + string list" where
  "walk t fuel cur [] = Inr cur"
| "walk t fuel cur (s # ss) =
     (if s = ''.'' then walk t fuel cur ss
      else if s = ''..'' then walk t fuel (butlast cur) ss
      else (case get t (cur @ [s]) of
              None \<Rightarrow> if ss = [] \<and> isDir (get t cur) then Inr (cur @ [s]) else Inl ENOENT
            | Some (File c m) \<Rightarrow> if ss = [] then Inr (cur @ [s]) else Inl ENOTDIR
            | Some (Dir es) \<Rightarrow> walk t fuel (cur @ [s]) ss
            | Some (Symlink l) \<Rightarrow>
                (if fuel = 0 then Inl ELOOP
                 else walk t (fuel - 1) (if isAbsolute l then [] else cur) (pathSegs l @ ss))))"
  by pat_completeness auto
termination
  by (relation "measures [\<lambda>(t, fuel, cur, ss). fuel, \<lambda>(t, fuel, cur, ss). length ss]") auto

text \<open>The location a path string names for a process in \<open>wd\<close>; the empty path names nothing.\<close>

definition locate :: "node \<Rightarrow> string \<Rightarrow> string \<Rightarrow> ioerr + string list" where
  "locate t wd p =
     (if p = [] then Inl ENOENT
      else walk t 40 (if isAbsolute p then [] else pathSegs wd) (pathSegs p))"

text \<open>\<open>fs.existsSync(p)\<close>.\<close>

definition existsSync :: "node \<Rightarrow> string \<Rightarrow> string \<Rightarrow> bool" where
  "existsSync t wd p =
     (case locate t wd p of Inl e \<Rightarrow> False | Inr loc \<Rightarrow> get t loc \<noteq> None)"

text \<open>
  \<open>mkdir(p, { recursive: true })\<close>: every missing directory on the way is made; a
  directory that is there is entered, a link is followed when it leads to one, and a
  regular file in the way is an error.
\<close>

fun mkdirp :: "node \<Rightarrow> nat \<Rightarrow> string list \<Rightarrow> string list \<Rightarrow> ioerr + node" where
  "mkdirp t fuel cur [] = Inr t"
| "mkdirp t fuel cur (s # ss) =
     (if s = ''.'' then mkdirp t fuel cur ss
      else if s = ''..'' then mkdirp t fuel (butlast cur) ss
      else (case get t (cur @ [s]) of
              None \<Rightarrow>
                if isDir (get t cur) then mkdirp (put t (cur @ [s]) (Dir [])) fuel (cur @ [s]) ss
                else Inl ENOENT
            | Some (File c m) \<Rightarrow> Inl (if ss = [] then EEXIST else ENOTDIR)
            | Some (Dir es) \<Rightarrow> mkdirp t fuel (cur @ [s]) ss
            | Some (Symlink l) \<Rightarrow>
                (if fuel = 0 then Inl ELOOP
                 else (case walk t (fuel - 1) (if isAbsolute l then [] else cur) (pathSegs l) of
                         Inl e \<Rightarrow> Inl e
                       | Inr loc \<Rightarrow>
                           (case get t loc of
                              None \<Rightarrow> Inl ENOENT
                            | Some (Dir es) \<Rightarrow> mkdirp t (fuel - 1) loc ss
                            | Some other \<Rightarrow> Inl (if ss = [] then EEXIST else ENOTDIR))))))"

definition mkdir :: "node \<Rightarrow> string \<Rightarrow> string \<Rightarrow> ioerr + node" where
  "mkdir t wd p =
     (if p = [] then Inl ENOENT
      else mkdirp t 40 (if isAbsolute p then [] else pathSegs wd) (pathSegs p))"

text \<open>
  \<open>writeFile(p, data, 'utf8')\<close> at time \<open>now\<close>: the file is made or replaced as a whole.
\<close>

definition writeFile :: "node \<Rightarrow> string \<Rightarrow> int \<Rightarrow> string \<Rightarrow> string \<Rightarrow> ioerr + node" where
  "writeFile t wd now p data =
     (case locate t wd p of
        Inl e \<Rightarrow> Inl e
      | Inr loc \<Rightarrow>
          (case get t loc of
             Some (Dir es) \<Rightarrow> Inl EISDIR
           | Some (Symlink l) \<Rightarrow> Inl ELOOP
           | other \<Rightarrow> Inr (put t loc (File data now))))"

text \<open>\<open>readFile(p, 'utf8')\<close>.\<close>

definition readFile :: "node \<Rightarrow> string \<Rightarrow> string \<Rightarrow> ioerr + string" where
  "readFile t wd p =
     (case locate t wd p of
        Inl e \<Rightarrow> Inl e
      | Inr loc \<Rightarrow>
          (case get t loc of
             Some (File c m) \<Rightarrow> Inr c
           | Some (Dir es) \<Rightarrow> Inl EISDIR
           | Some (Symlink l) \<Rightarrow> Inl ELOOP
           | None \<Rightarrow> Inl ENOENT))"

text \<open>\<open>readdir(p, { withFileTypes: true })\<close>: the entries, each with its node.\<close>

definition readdir :: "node \<Rightarrow> string \<Rightarrow> string \<Rightarrow> ioerr + (string \<times> node) list" where
  "readdir t wd p =
     (case locate t wd p of
        Inl e \<Rightarrow> Inl e
      | Inr loc \<Rightarrow>
          (case get t loc of
             Some (Dir es) \<Rightarrow> Inr es
           | Some other \<Rightarrow> Inl ENOTDIR
           | None \<Rightarrow> Inl ENOENT))"

section \<open>Listing\<close>

record entry =
  name :: string
  relativePath :: string
  dir :: string
  size :: nat
  mtime :: int

text \<open>
  The loop of \<open>listDrawnixFiles(dir, base)\<close> over the entries \<open>readdir(dir)\<close> gave. Of a
  \<open>Dirent\<close>, \<open>isDirectory()\<close> holds of a directory and \<open>isFile()\<close> of a regular file; a
  symbolic link is neither. The directory read at \<open>path.join(dir, ent.name)\<close> is the one
  the entry stands for, and \<open>stat\<close> of a regular file gives its length and time.
\<close>

fun listLoop :: "string \<Rightarrow> (string \<times> node) list \<Rightarrow> string \<Rightarrow> string \<Rightarrow> entry list" where
  "listLoop wd [] d base = []"
| "listLoop wd ((nm, File c m) # ents) d base =
     (if endsWith nm ''.drawnix'' then
        (let rel = relative wd base (join [d, nm])
         in [\<lparr>name = nm, relativePath = rel,
              dir = (if dirname rel = ''.'' then [] else dirname rel),
              size = length c, mtime = m\<rparr>])
      else [])
     @ listLoop wd ents d base"
| "listLoop wd ((nm, Dir sub) # ents) d base =
     listLoop wd sub (join [d, nm]) base @ listLoop wd ents d base"
| "listLoop wd ((nm, Symlink l) # ents) d base = listLoop wd ents d base"

definition listDrawnixFiles :: "node \<Rightarrow> string \<Rightarrow> string \<Rightarrow> string \<Rightarrow> ioerr + entry list" where
  "listDrawnixFiles t wd d base =
     (case readdir t wd d of
        Inl e \<Rightarrow> Inl e
      | Inr ents \<Rightarrow> Inr (listLoop wd ents d base))"

section \<open>The routes\<close>

text \<open>
  What a handler does with a request: the answer it sends, or none when it throws
  outside its \<open>try\<close>. \<open>Fail n msg\<close> is \<open>res.status(n).json({ ok: false, error: msg })\<close>;
  the others are the \<open>res.json({ ok: true, ... })\<close> answers of the three routes.
\<close>

datatype reply =
    Fail nat string
  | UploadOk string nat
  | FilesOk "entry list"
  | FileOk string string string
  | Unhandled

fun status :: "reply \<Rightarrow> nat option" where
  "status (Fail n msg) = Some n"
| "status Unhandled = None"
| "status r = Some 200"

text \<open>The calls a handler makes on the file system, in order.\<close>

datatype fsop =
    OpMkdir string
  | OpWriteFile string string
  | OpReaddir string
  | OpReadFile string

text \<open>
  An upload request: the \<open>Authorization\<close> header and the three fields read from
  \<open>req.body || {}\<close>.
\<close>

record body =
  filename :: jsval
  content :: jsval
  dir :: jsval

text \<open>\<open>dir ? String(dir) : ''\<close>, \<open>None\<close> when \<open>String\<close> throws.\<close>

definition dirArg :: "jsval \<Rightarrow> string option" where
  "dirArg v = (if truthy v then String v else Some [])"

text \<open>
  \<open>handleUpload\<close> of the mock server, and the handler of \<open>app.post('/upload', ...)\<close>,
  which differs in how it sends the answer only. The result is the answer, the file system left behind and
  the calls made on it.
\<close>

definition handleUpload ::
  "config \<Rightarrow> int \<Rightarrow> string option \<Rightarrow> body \<Rightarrow> node \<Rightarrow> reply \<times> node \<times> fsop list" where
  "handleUpload cfg now hdr b t =
     (if \<not> authCheck cfg hdr then (Fail 401 ''Unauthorized'', t, [])
      else
        (case orEmpty (filename b) of
           JStr fname \<Rightarrow>
             (if fname = [] then (Fail 400 ''filename required'', t, [])
              else
                (let safeName = basename fname in
                 case dirArg (orEmpty (dir b)) of
                   None \<Rightarrow> (Unhandled, t, [])
                 | Some d \<Rightarrow>
                     (let targetDir = resolve (cwd cfg) [BASE_DIR cfg, d];
                          targetPath = resolve (cwd cfg) [targetDir, safeName]
                      in if \<not> isPathInside (cwd cfg) (BASE_DIR cfg) targetPath
                         then (Fail 400 ''Invalid path'', t, [])
                         else
                           (case mkdir t (cwd cfg) targetDir of
                              Inl e \<Rightarrow> (Fail 500 ''Write failed'', t, [OpMkdir targetDir])
                            | Inr t1 \<Rightarrow>
                                (case String (orEmpty (content b)) of
                                   None \<Rightarrow> (Fail 500 ''Write failed'', t1, [OpMkdir targetDir])
                                 | Some data \<Rightarrow>
                                     (case writeFile t1 (cwd cfg) now targetPath data of
                                        Inl e \<Rightarrow>
                                          (Fail 500 ''Write failed'', t1,
                                           [OpMkdir targetDir, OpWriteFile targetPath data])
                                      | Inr t2 \<Rightarrow>
                                          (UploadOk targetPath (length data), t2,
                                           [OpMkdir targetDir, OpWriteFile targetPath data])))))))
         | other \<Rightarrow> (Fail 400 ''filename required'', t, [])))"

text \<open>\<open>handleListFiles\<close>, and the handler of \<open>app.get('/files', ...)\<close>.\<close>

definition handleListFiles :: "config \<Rightarrow> string option \<Rightarrow> node \<Rightarrow> reply \<times> node \<times> fsop list" where
  "handleListFiles cfg hdr t =
     (if \<not> authCheck cfg hdr then (Fail 401 ''Unauthorized'', t, [])
      else
        (case mkdir t (cwd cfg) (BASE_DIR cfg) of
           Inl e \<Rightarrow> (Fail 500 ''List failed'', t, [OpMkdir (BASE_DIR cfg)])
         | Inr t1 \<Rightarrow>
             (case listDrawnixFiles t1 (cwd cfg) (BASE_DIR cfg) (BASE_DIR cfg) of
                Inl e \<Rightarrow>
                  (Fail 500 ''List failed'', t1, [OpMkdir (BASE_DIR cfg), OpReaddir (BASE_DIR cfg)])
              | Inr fs \<Rightarrow>
                  (FilesOk fs, t1, [OpMkdir (BASE_DIR cfg), OpReaddir (BASE_DIR cfg)]))))"

text \<open>
  \<open>handleReadFile\<close>, and the handler of \<open>app.get('/file', ...)\<close>. \<open>q\<close> is the string of the \<open>path\<close> query
  parameter, \<open>None\<close> when there is none; \<open>replace(/^\/+/, '')\<close> drops the leading slashes.
\<close>

definition handleReadFile :: "config \<Rightarrow> string option \<Rightarrow> string option \<Rightarrow> node \<Rightarrow> reply \<times> node \<times> fsop list" where
  "handleReadFile cfg hdr q t =
     (if \<not> authCheck cfg hdr then (Fail 401 ''Unauthorized'', t, [])
      else
        (let rel = dropWhile (\<lambda>c. c = CHR ''/'') (case q of None \<Rightarrow> [] | Some p \<Rightarrow> p) in
         if rel = [] then (Fail 400 ''path required'', t, [])
         else
           (let abs = resolve (cwd cfg) [BASE_DIR cfg, rel] in
            if \<not> isPathInside (cwd cfg) (BASE_DIR cfg) abs then (Fail 400 ''Invalid path'', t, [])
            else
              (case readFile t (cwd cfg) abs of
                 Inr c \<Rightarrow> (FileOk (basename abs) rel c, t, [OpReadFile abs])
               | Inl e \<Rightarrow> (Fail 404 ''Not Found'', t, [OpReadFile abs])))))"

section \<open>Start of the process\<close>

text \<open>
  What the process does that can be seen from outside: the build step has run
  (\<open>spawnSync\<close> has returned), the process has ended with an exit code, the server listens
  on a port.
\<close>

datatype event = Built | Exited int | Listening nat

text \<open>\<open>ensureDirSync(dir)\<close>; \<open>mkdirSync\<close> throws where \<open>mkdir\<close> gives an error.\<close>

definition ensureDirSync :: "node \<Rightarrow> string \<Rightarrow> string \<Rightarrow> ioerr + node" where
  "ensureDirSync t wd d = (if \<not> existsSync t wd d then mkdir t wd d else Inr t)"

text \<open>
  \<open>INDEX_HTML\<close>, from the directory \<open>scriptDir\<close> of the script (\<open>__dirname\<close>).
\<close>

definition INDEX_HTML :: "string \<Rightarrow> string \<Rightarrow> string" where
  "INDEX_HTML wd scriptDir =
     (let ROOT = resolve wd [scriptDir, ''..''];
          DIST_DIR = resolve wd [ROOT, ''dist/apps/web'']
      in join [DIST_DIR, ''index.html''])"

text \<open>
  \<open>buildFrontendIfNeeded()\<close>. The build step is not part of the repository:
  \<open>build t\<close> is the exit status \<open>spawnSync\<close> reports for it (\<open>None\<close> for \<open>null\<close>, when it
  was killed or could not be started) and the file system it leaves. The result is the
  events, whether the function returned (it does not after \<open>process.exit\<close>), and the file
  system.
\<close>

definition buildFrontendIfNeeded ::
  "bool \<Rightarrow> string \<Rightarrow> string \<Rightarrow> (node \<Rightarrow> int option \<times> node) \<Rightarrow> node \<Rightarrow> event list \<times> bool \<times> node" where
  "buildFrontendIfNeeded FORCE_BUILD wd scriptDir build t =
     (let needBuild = (FORCE_BUILD \<or> \<not> existsSync t wd (INDEX_HTML wd scriptDir)) in
      if \<not> needBuild then ([], True, t)
      else
        (case build t of
           (res_status, t') \<Rightarrow>
             if res_status \<noteq> Some 0
             then ([Built, Exited (case res_status of None \<Rightarrow> 1 | Some n \<Rightarrow> n)], False, t')
             else ([Built], True, t')))"

text \<open>
  \<open>main()\<close> up to \<open>app.listen(PORT)\<close>. An exception in it reaches
  \<open>main().catch\<close>, which ends the process with code 1.
\<close>

definition main ::
  "config \<Rightarrow> bool \<Rightarrow> string \<Rightarrow> nat \<Rightarrow> (node \<Rightarrow> int option \<times> node) \<Rightarrow> node \<Rightarrow> event list \<times> node" where
  "main cfg FORCE_BUILD scriptDir PORT build t =
     (case ensureDirSync t (cwd cfg) (BASE_DIR cfg) of
        Inl e \<Rightarrow> ([Exited 1], t)
      | Inr t1 \<Rightarrow>
          (case buildFrontendIfNeeded FORCE_BUILD (cwd cfg) scriptDir build t1 of
             (evs, returned, t2) \<Rightarrow>
               if returned then (evs @ [Listening PORT], t2) else (evs, t2)))"

section \<open>Names\<close>

text \<open>
  A name a directory entry can have, which is also what a segment of a resolved path is:
  not empty, without a slash, and neither \<open>.\<close> nor \<open>..\<close>.
\<close>

definition cleanSeg :: "string \<Rightarrow> bool" where
  "cleanSeg s = (s \<noteq> [] \<and> CHR ''/'' \<notin> set s \<and> s \<noteq> ''.'' \<and> s \<noteq> ''..'')"

text \<open>
  The specification's notion of containment: the resolved form of \<open>p\<close> lies strictly
  below the resolved form of \<open>root\<close>, that is, its segments are those of \<open>root\<close>
  followed by at least one more.
\<close>

definition strictDescendant :: "string \<Rightarrow> string \<Rightarrow> string \<Rightarrow> bool" where
  "strictDescendant wd root p =
     strict_prefix (pathSegs (resolve wd [root])) (pathSegs (resolve wd [p]))"


text \<open>What is at a location, as far as path resolution looks.\<close>

datatype kind = Missing | Regular | Directory | Link string

fun kindOf :: "node option \<Rightarrow> kind" where
  "kindOf None = Missing"
| "kindOf (Some (File c m)) = Regular"
| "kindOf (Some (Dir es)) = Directory"
| "kindOf (Some (Symlink l)) = Link l"

section \<open>The documents of a directory\<close>

text \<open>
  The specification's account of a listing: the regular files below a directory whose
  names end with the document suffix, each with the names that lead to it from that
  directory, in the order of a walk that enters every directory and no link.
\<close>

fun documents :: "(string \<times> node) list \<Rightarrow> (string list \<times> string \<times> int) list" where
  "documents [] = []"
| "documents ((nm, File c m) # ents) =
     (if endsWith nm ''.drawnix'' then [([nm], c, m)] else []) @ documents ents"
| "documents ((nm, Dir sub) # ents) =
     map (\<lambda>(p, c, m). (nm # p, c, m)) (documents sub) @ documents ents"
| "documents ((nm, Symlink l) # ents) = documents ents"

text \<open>
  What the specification says is reported of a document: its name, its path relative to
  the root, its parent directory relative to the root (empty at the root itself), its
  size in bytes and its modification time.
\<close>

definition entryOf :: "string list \<times> string \<times> int \<Rightarrow> entry" where
  "entryOf d =
     (case d of (p, c, m) \<Rightarrow>
        \<lparr>name = last p, relativePath = joinSlash p, dir = joinSlash (butlast p),
         size = length c, mtime = m\<rparr>)"

text \<open>
  Directories as a file system keeps them: every name is one an entry can have, and no
  name is twice in a directory.
\<close>

fun wfEntries :: "(string \<times> node) list \<Rightarrow> bool" where
  "wfEntries [] = True"
| "wfEntries ((nm, Dir sub) # ents) =
     (cleanSeg nm \<and> nm \<notin> fst ` set ents \<and> wfEntries sub \<and> wfEntries ents)"
| "wfEntries ((nm, n) # ents) = (cleanSeg nm \<and> nm \<notin> fst ` set ents \<and> wfEntries ents)"

fun wfNode :: "node \<Rightarrow> bool" where
  "wfNode (Dir es) = wfEntries es"
| "wfNode n = True"

section \<open>Facts about paths\<close>

lemma splitSlash_nonempty: "splitSlash s \<noteq> []"
  by (induction s) (auto split: list.splits)

lemma splitSlash_noslash: "CHR ''/'' \<notin> set s \<Longrightarrow> splitSlash s = [s]"
  by (induction s) (auto split: list.splits)

lemma splitSlash_slash:
  "CHR ''/'' \<notin> set a \<Longrightarrow> splitSlash (a @ CHR ''/'' # b) = a # splitSlash b"
  by (induction a) (auto split: list.splits)

lemma splitSlash_segs_noslash: "x \<in> set (splitSlash s) \<Longrightarrow> CHR ''/'' \<notin> set x"
  by (induction s arbitrary: x) (auto split: list.splits if_splits)

lemma splitSlash_joinSlash:
  "segs \<noteq> [] \<Longrightarrow> \<forall>s\<in>set segs. CHR ''/'' \<notin> set s \<Longrightarrow> splitSlash (joinSlash segs) = segs"
  apply (induction segs rule: joinSlash.induct) 
    apply simp
   apply (simp add: splitSlash_noslash)
  apply (simp add: splitSlash_slash)
  done

lemma cleanSeg_butlast: "list_all cleanSeg res \<Longrightarrow> list_all cleanSeg (butlast res)"
  by (simp add: list_all_iff) (meson in_set_butlastD)

lemma normSegs_clean:
  "list_all cleanSeg res \<Longrightarrow> \<forall>s\<in>set ss. CHR ''/'' \<notin> set s \<Longrightarrow> list_all cleanSeg (normSegs False res ss)"
proof (induction ss arbitrary: res)
  case Nil
  then show ?case by simp
next
  case (Cons s ss)
  have ss: "\<forall>s\<in>set ss. CHR ''/'' \<notin> set s" using Cons.prems(2) by simp
  consider "s = [] \<or> s = ''.''" | "s = ''..''" | "s \<noteq> []" "s \<noteq> ''.''" "s \<noteq> ''..''" by blast
  then show ?case
  proof cases
    case 1
    then show ?thesis using Cons.IH[OF Cons.prems(1) ss] by auto
  next
    case 2
    show ?thesis using Cons.IH[OF Cons.prems(1) ss] Cons.IH[OF cleanSeg_butlast[OF Cons.prems(1)] ss]
      by (simp add: 2)
  next
    case 3
    have "cleanSeg s" using 3 Cons.prems(2) by (simp add: cleanSeg_def)
    then have "list_all cleanSeg (res @ [s])" using Cons.prems(1) by simp
    from Cons.IH[OF this ss] show ?thesis using 3 by simp
  qed
qed

lemma normSegs_clean_id:
  "list_all cleanSeg ss \<Longrightarrow> normSegs allow res ss = res @ ss"
proof (induction ss arbitrary: res)
  case Nil
  then show ?case by simp
next
  case (Cons s ss)
  then have "s \<noteq> []" "s \<noteq> ''.''" "s \<noteq> ''..''" by (auto simp: cleanSeg_def)
  then show ?case using Cons by simp
qed

lemma normSegs_append:
  "normSegs allow res (ss @ ts) = normSegs allow (normSegs allow res ss) ts"
  by (induction ss arbitrary: res) auto

lemma resolveLoop_absolute:
  "isAbsolute wd \<Longrightarrow> snd (resolveLoop (xs @ [wd]) acc)"
  by (induction xs arbitrary: acc) (auto simp: isAbsolute_def)

lemma pathSegs_rooted:
  assumes "list_all cleanSeg segs"
  shows "pathSegs (CHR ''/'' # joinSlash segs) = segs"
proof (cases "segs = []")
  case True
  then show ?thesis by (simp add: pathSegs_def)
next
  case False
  have ns: "\<forall>s\<in>set segs. CHR ''/'' \<notin> set s" using assms by (simp add: list_all_iff cleanSeg_def)
  have ne: "\<forall>s\<in>set segs. s \<noteq> []" using assms by (simp add: list_all_iff cleanSeg_def)
  have "filter (\<lambda>s. s \<noteq> []) segs = segs" using ne by (simp add: filter_id_conv)
  then show ?thesis using splitSlash_joinSlash[OF False ns] by (simp add: pathSegs_def)
qed

lemma resolve_form:
  assumes "isAbsolute wd"
  shows "\<exists>segs. list_all cleanSeg segs \<and> resolve wd args = CHR ''/'' # joinSlash segs"
proof -
  obtain rp ra where l: "resolveLoop (rev args @ [wd]) [] = (rp, ra)" by (cases "resolveLoop (rev args @ [wd]) []")
  have ra using resolveLoop_absolute[OF assms, of "rev args" "[]"] l by simp
  let ?segs = "normSegs False [] (splitSlash rp)"
  have "list_all cleanSeg ?segs" by (rule normSegs_clean) (auto dest: splitSlash_segs_noslash)
  moreover have "resolve wd args = CHR ''/'' # joinSlash ?segs"
    using l \<open>ra\<close> by (simp add: resolve_def normalizeString_def)
  ultimately show ?thesis by blast
qed

lemma resolve_segs:
  assumes "isAbsolute wd"
  shows "list_all cleanSeg (pathSegs (resolve wd args))"
    and "resolve wd args = CHR ''/'' # joinSlash (pathSegs (resolve wd args))"
  using resolve_form[OF assms, of args] pathSegs_rooted by auto

lemma dropCommon_split:
  "dropCommon xs ys = (fs, ts) \<Longrightarrow> \<exists>c. xs = c @ fs \<and> ys = c @ ts"
proof (induction xs ys rule: dropCommon.induct)
  case (1 x xs y ys)
  show ?case
  proof (cases "x = y")
    case True
    with 1 obtain c where "xs = c @ fs" "ys = c @ ts" by auto
    then have "x # xs = (x # c) @ fs \<and> y # ys = (x # c) @ ts" using True by simp
    then show ?thesis by blast
  next
    case False
    with 1 show ?thesis by auto
  qed
qed auto

lemma dropCommon_prefix: "dropCommon xs (xs @ ts) = ([], ts)"
  by (induction xs) auto

lemma dropCommon_nil_iff: "fst (dropCommon xs ys) = [] \<longleftrightarrow> prefix xs ys"
proof
  assume "fst (dropCommon xs ys) = []"
  then obtain ts where "dropCommon xs ys = ([], ts)" by (cases "dropCommon xs ys") auto
  from dropCommon_split[OF this] show "prefix xs ys" by (auto simp: prefix_def)
next
  assume "prefix xs ys"
  then show "fst (dropCommon xs ys) = []" by (auto simp: prefix_def dropCommon_prefix)
qed


lemma joinSlash_Cons: "joinSlash (s # ss) = (if ss = [] then s else s @ CHR ''/'' # joinSlash ss)"
  by (cases ss) auto

lemma relative_segs:
  assumes "isAbsolute wd"
  shows "relative wd a b =
          (case dropCommon (pathSegs (resolve wd [a])) (pathSegs (resolve wd [b])) of
             (fs, ts) \<Rightarrow> joinSlash (map (\<lambda>_. ''..'') fs @ ts))"
proof (cases "resolve wd [a] = resolve wd [b]")
  case True
  have "dropCommon (pathSegs (resolve wd [b])) (pathSegs (resolve wd [b])) = ([], [])"
    using dropCommon_prefix[of "pathSegs (resolve wd [b])" "[]"] by simp
  then show ?thesis using True by (simp add: relative_def)
next
  case False
  then have "a \<noteq> b" by auto
  then show ?thesis using False by (simp add: relative_def Let_def)
qed

lemma isPathInside_iff:
  assumes "isAbsolute wd"
  shows "isPathInside wd a b \<longleftrightarrow>
          (\<exists>s rest. pathSegs (resolve wd [b]) = pathSegs (resolve wd [a]) @ s # rest
                     \<and> \<not> startsWith s ''..'')"
proof -
  let ?A = "pathSegs (resolve wd [a])" and ?B = "pathSegs (resolve wd [b])"
  obtain fs ts where dc: "dropCommon ?A ?B = (fs, ts)" by (cases "dropCommon ?A ?B")
  from dropCommon_split[OF dc] obtain c where c: "?A = c @ fs" "?B = c @ ts" by blast
  have rel: "relative wd a b = joinSlash (map (\<lambda>_. ''..'') fs @ ts)"
    using relative_segs[OF assms, of a b] dc by simp
  have clB: "list_all cleanSeg ?B" by (rule resolve_segs(1)[OF assms])
  show ?thesis
  proof (cases fs)
    case (Cons f fs')
    have "startsWith (relative wd a b) ''..''"
      unfolding rel Cons by (simp add: joinSlash_Cons startsWith_def)
    moreover have "\<not> (\<exists>s rest. ?B = ?A @ s # rest)"
    proof
      assume "\<exists>s rest. ?B = ?A @ s # rest"
      then have "prefix ?A ?B" by (auto simp: prefix_def)
      then have "fst (dropCommon ?A ?B) = []" by (simp add: dropCommon_nil_iff)
      then show False using dc Cons by simp
    qed
    ultimately show ?thesis by (auto simp: isPathInside_def)
  next
    case Nil
    then have AB: "?B = ?A @ ts" using c by simp
    show ?thesis
    proof (cases ts)
      case Nil
      then have "relative wd a b = []" using rel \<open>fs = []\<close> by simp
      moreover have "\<not> (\<exists>s rest. ?B = ?A @ s # rest)" using AB Nil by simp
      ultimately show ?thesis by (simp add: isPathInside_def)
    next
      case (Cons s rest)
      have cs: "cleanSeg s" using clB AB Cons by simp
      then obtain ch s' where s: "s = ch # s'" "ch \<noteq> CHR ''/''" by (cases s) (auto simp: cleanSeg_def)
      have r: "relative wd a b = joinSlash (s # rest)" using rel \<open>fs = []\<close> Cons by simp
      have ne: "relative wd a b \<noteq> []" unfolding r using s by (simp add: joinSlash_Cons)
      have na: "\<not> isAbsolute (relative wd a b)" unfolding r using s by (simp add: joinSlash_Cons isAbsolute_def)
      have sw: "startsWith (relative wd a b) ''..'' = startsWith s ''..''"
      proof (cases s')
        case Nil
        then show ?thesis unfolding r using s by (auto simp: joinSlash_Cons startsWith_def)
      next
        case (Cons ch2 s'')
        then show ?thesis unfolding r using s by (auto simp: joinSlash_Cons startsWith_def)
      qed
      have "(\<exists>s0 rest0. ?B = ?A @ s0 # rest0 \<and> \<not> startsWith s0 ''..'') = (\<not> startsWith s ''..'')"
        using AB Cons by auto
      then show ?thesis using ne na sw by (simp add: isPathInside_def)
    qed
  qed
qed


lemma splitSlash_append:
  "splitSlash (a @ CHR ''/'' # b) = splitSlash a @ splitSlash b"
proof (induction a)
  case Nil
  show ?case by simp
next
  case (Cons c a)
  obtain x xs where sp: "splitSlash a = x # xs"
    using splitSlash_nonempty[of a] by (cases "splitSlash a") auto
  show ?case using Cons sp by simp
qed

lemma splitSlash_snoc: "splitSlash (a @ ''/'') = splitSlash a @ [[]]"
  using splitSlash_append[of a "[]"] by simp

lemma normSegs_empty_seg: "normSegs allow res (ss @ [[]]) = normSegs allow res ss"
  by (simp add: normSegs_append)

lemma resolveLoop_acc:
  "resolveLoop l acc = (fst (resolveLoop l []) @ acc, snd (resolveLoop l []))"
proof (induction l arbitrary: acc)
  case Nil
  show ?case by simp
next
  case (Cons p ps)
  show ?case
  proof (cases "p = [] \<or> hd p = CHR ''/''")
    case True
    then show ?thesis using Cons[of acc] by auto
  next
    case False
    then show ?thesis using Cons[of "p @ CHR ''/'' # acc"] Cons[of "p @ ''/''"] by simp
  qed
qed

lemma resolveLoop_ends_slash:
  "snd (resolveLoop l []) \<Longrightarrow> \<exists>r. fst (resolveLoop l []) = r @ ''/''"
proof (induction l)
  case Nil
  then show ?case by simp
next
  case (Cons p ps)
  show ?case
  proof (cases "p = []")
    case True
    then show ?thesis using Cons by simp
  next
    case False
    show ?thesis
    proof (cases "hd p = CHR ''/''")
      case True
      then show ?thesis using False by simp
    next
      case hf: False
      have "resolveLoop (p # ps) [] = resolveLoop ps (p @ ''/'')" using False hf by simp
      also have "\<dots> = (fst (resolveLoop ps []) @ p @ ''/'', snd (resolveLoop ps []))"
        using resolveLoop_acc[of ps "p @ ''/''"] by simp
      finally show ?thesis by (metis append.assoc fst_conv)
    qed
  qed
qed

lemma resolve_norm:
  assumes "isAbsolute wd"
  shows "pathSegs (resolve wd args) = normSegs False [] (splitSlash (fst (resolveLoop (rev args @ [wd]) [])))"
proof -
  obtain rp ra where l: "resolveLoop (rev args @ [wd]) [] = (rp, ra)" by (cases "resolveLoop (rev args @ [wd]) []")
  have ra using resolveLoop_absolute[OF assms, of "rev args" "[]"] l by simp
  let ?segs = "normSegs False [] (splitSlash rp)"
  have "list_all cleanSeg ?segs" by (rule normSegs_clean) (auto dest: splitSlash_segs_noslash)
  moreover have "resolve wd args = CHR ''/'' # joinSlash ?segs"
    using l \<open>ra\<close> by (simp add: resolve_def normalizeString_def)
  ultimately show ?thesis using l by (simp add: pathSegs_rooted)
qed

lemma resolve_eqI:
  assumes "isAbsolute wd" "pathSegs (resolve wd as) = pathSegs (resolve wd bs)"
  shows "resolve wd as = resolve wd bs"
  using resolve_segs(2)[OF assms(1), of as] resolve_segs(2)[OF assms(1), of bs] assms(2) by simp

lemma resolve_append_rel:
  assumes "isAbsolute wd" "\<not> isAbsolute x"
  shows "pathSegs (resolve wd (as @ [x])) = normSegs False (pathSegs (resolve wd as)) (splitSlash x)"
proof (cases "x = []")
  case True
  have "resolveLoop (rev (as @ [x]) @ [wd]) [] = resolveLoop (rev as @ [wd]) []" using True by simp
  then have "pathSegs (resolve wd (as @ [x])) = pathSegs (resolve wd as)"
    using resolve_norm[OF assms(1)] by simp
  then show ?thesis using True by simp
next
  case False
  let ?l = "rev as @ [wd]"
  have hx: "hd x \<noteq> CHR ''/''" using assms(2) False by (simp add: isAbsolute_def)
  have abs: "snd (resolveLoop ?l [])" by (rule resolveLoop_absolute[OF assms(1)])
  then obtain r where r: "fst (resolveLoop ?l []) = r @ ''/''" using resolveLoop_ends_slash by blast
  have "resolveLoop (rev (as @ [x]) @ [wd]) [] = resolveLoop ?l (x @ ''/'')"
    using False hx by simp
  then have f: "fst (resolveLoop (rev (as @ [x]) @ [wd]) []) = r @ CHR ''/'' # (x @ ''/'')"
    using resolveLoop_acc[of ?l "x @ ''/''"] r by simp
  have "pathSegs (resolve wd (as @ [x])) = normSegs False [] (splitSlash (r @ CHR ''/'' # (x @ ''/'')))"
    using resolve_norm[OF assms(1), of "as @ [x]"] f by simp
  also have "\<dots> = normSegs False (normSegs False [] (splitSlash r)) (splitSlash x)"
    by (simp add: splitSlash_append splitSlash_snoc normSegs_append)
  also have "normSegs False [] (splitSlash r) = pathSegs (resolve wd as)"
    using resolve_norm[OF assms(1), of as] r by (simp add: splitSlash_snoc normSegs_append)
  finally show ?thesis .
qed

lemma resolve_append_abs:
  assumes "isAbsolute x"
  shows "resolve wd (as @ [x]) = resolve wd [x]"
  using assms by (simp add: resolve_def isAbsolute_def)

lemma resolve_idem:
  assumes "isAbsolute wd"
  shows "resolve wd [resolve wd as] = resolve wd as"
proof -
  let ?R = "resolve wd as" and ?segs = "pathSegs (resolve wd as)"
  have cl: "list_all cleanSeg ?segs" and R: "?R = CHR ''/'' # joinSlash ?segs"
    using resolve_segs[OF assms, of as] by auto
  have loop: "resolveLoop (rev [?R] @ [wd]) [] = (?R @ ''/'', True)"
    using R by (metis append_Cons append_Nil list.sel(1) list.simps(3) resolveLoop.simps(2) rev.simps(1) rev.simps(2))
  have "splitSlash (?R @ ''/'') = [] # splitSlash (joinSlash ?segs) @ [[]]"
    by (subst R) (simp add: splitSlash_snoc)
  moreover have "normSegs False [] ([] # splitSlash (joinSlash ?segs) @ [[]]) = ?segs"
  proof (cases "?segs = []")
    case True
    then show ?thesis by simp
  next
    case False
    have "\<forall>s\<in>set ?segs. CHR ''/'' \<notin> set s" using cl by (simp add: list_all_iff cleanSeg_def)
    from splitSlash_joinSlash[OF False this] show ?thesis
      using cl by (simp add: normSegs_append normSegs_clean_id)
  qed
  ultimately have "pathSegs (resolve wd [?R]) = ?segs"
    using resolve_norm[OF assms, of "[?R]"] loop by simp
  then show ?thesis using resolve_eqI[OF assms, of "[?R]" as] by simp
qed


lemma resolve_two:
  assumes "isAbsolute wd"
  shows "resolve wd [resolve wd as, x] = resolve wd (as @ [x])"
proof (cases "isAbsolute x")
  case True
  then show ?thesis using resolve_append_abs[OF True, of wd as] resolve_append_abs[OF True, of wd "[resolve wd as]"] by simp
next
  case False
  have "pathSegs (resolve wd ([resolve wd as] @ [x])) = normSegs False (pathSegs (resolve wd [resolve wd as])) (splitSlash x)"
    by (rule resolve_append_rel[OF assms False])
  also have "\<dots> = pathSegs (resolve wd (as @ [x]))"
    using resolve_append_rel[OF assms False, of as] resolve_idem[OF assms, of as] by simp
  finally show ?thesis using resolve_eqI[OF assms, of "[resolve wd as, x]" "as @ [x]"] by simp
qed

lemma isPathInside_strictDescendant:
  "isAbsolute wd \<Longrightarrow> isPathInside wd root p \<Longrightarrow> strictDescendant wd root p"
  by (auto simp: isPathInside_iff strictDescendant_def strict_prefix_def prefix_def)

lemma basename_noslash: "CHR ''/'' \<notin> set (basename f)"
  unfolding basename_def using set_takeWhileD by fastforce

lemma basename_last_segment:
  "n \<noteq> [] \<Longrightarrow> CHR ''/'' \<notin> set n \<Longrightarrow> basename (pre @ CHR ''/'' # n) = n"
proof -
  assume n: "n \<noteq> []" "CHR ''/'' \<notin> set n"
  then have l: "last n \<noteq> CHR ''/''" using last_in_set[of n] by metis
  have "rev (pre @ CHR ''/'' # n) = rev n @ CHR ''/'' # rev pre" by simp
  moreover have "dropWhile (\<lambda>c. c = CHR ''/'') (rev n @ CHR ''/'' # rev pre) = rev n @ CHR ''/'' # rev pre"
    using n l by (cases "rev n") (auto simp: last_rev hd_rev)
  ultimately have s: "stripTrailingSlashes (pre @ CHR ''/'' # n) = pre @ CHR ''/'' # n"
    by (simp add: stripTrailingSlashes_def)
  have "takeWhile (\<lambda>c. c \<noteq> CHR ''/'') (rev n @ CHR ''/'' # rev pre) = rev n"
    using n by (subst takeWhile_append2) auto
  then show ?thesis unfolding basename_def s by simp
qed

lemma resolve_child:
  assumes "isAbsolute wd" "cleanSeg n"
  shows "pathSegs (resolve wd [resolve wd as, n]) = pathSegs (resolve wd as) @ [n]"
proof -
  have na: "\<not> isAbsolute n" using assms(2) by (auto simp: isAbsolute_def cleanSeg_def) (metis hd_in_set)
  have sp: "splitSlash n = [n]" using assms(2) by (simp add: splitSlash_noslash cleanSeg_def)
  have "pathSegs (resolve wd [resolve wd as, n]) = pathSegs (resolve wd (as @ [n]))"
    by (simp add: resolve_two[OF assms(1)])
  also have "\<dots> = normSegs False (pathSegs (resolve wd as)) [n]"
    using resolve_append_rel[OF assms(1) na, of as] sp by simp
  also have "\<dots> = pathSegs (resolve wd as) @ [n]"
    using normSegs_clean_id[of "[n]" False] assms(2) by simp
  finally show ?thesis .
qed

lemma resolve_empty_last:
  assumes "isAbsolute wd"
  shows "resolve wd (as @ [[]]) = resolve wd as"
  by (simp add: resolve_def)




lemma normSegs_dots_clean:
  assumes "list_all cleanSeg W" "list_all cleanSeg cl"
  shows "normSegs False W (replicate k ''..'' @ cl) = normSegs False W (replicate k ''..'') @ cl"
    and "list_all cleanSeg (normSegs False W (replicate k ''..''))"
proof -
  show "normSegs False W (replicate k ''..'' @ cl) = normSegs False W (replicate k ''..'') @ cl"
    by (simp add: normSegs_append normSegs_clean_id[OF assms(2)])
  show "list_all cleanSeg (normSegs False W (replicate k ''..''))"
    by (rule normSegs_clean[OF assms(1)]) auto
qed

lemma normSegs_True_False:
  assumes "list_all cleanSeg W" "list_all cleanSeg cl" "\<forall>s\<in>set ss. CHR ''/'' \<notin> set s"
  shows "normSegs False W (normSegs True (replicate k ''..'' @ cl) ss)
         = normSegs False (normSegs False W (replicate k ''..'' @ cl)) ss"
  using assms(2,3)
proof (induction ss arbitrary: k cl)
  case Nil
  then show ?case by simp
next
  case (Cons s ss)
  let ?acc = "replicate k ''..'' @ cl"
  let ?V = "normSegs False W ?acc"
  have ss: "\<forall>s\<in>set ss. CHR ''/'' \<notin> set s" using Cons.prems(2) by simp
  have V: "?V = normSegs False W (replicate k ''..'') @ cl"
    and V0: "list_all cleanSeg (normSegs False W (replicate k ''..''))"
    using normSegs_dots_clean[OF assms(1) Cons.prems(1)] by auto
  consider "s = [] \<or> s = ''.''" | "s = ''..''" | "s \<noteq> []" "s \<noteq> ''.''" "s \<noteq> ''..''" by blast
  then show ?case
  proof cases
    case 1
    then show ?thesis using Cons.IH[OF Cons.prems(1) ss, of k] by auto
  next
    case 3
    then have cs: "cleanSeg s" using Cons.prems(2) by (simp add: cleanSeg_def)
    then have cl': "list_all cleanSeg (cl @ [s])" using Cons.prems(1) by simp
    have "normSegs False W (normSegs True ?acc (s # ss)) = normSegs False W (normSegs True (replicate k ''..'' @ (cl @ [s])) ss)"
      using 3 by simp
    also have "\<dots> = normSegs False (normSegs False W (replicate k ''..'' @ (cl @ [s]))) ss"
      by (rule Cons.IH[OF cl' ss])
    also have "normSegs False W (replicate k ''..'' @ (cl @ [s])) = ?V @ [s]"
      using normSegs_dots_clean(1)[OF assms(1) cl', of k] V by simp
    also have "normSegs False (?V @ [s]) ss = normSegs False ?V (s # ss)" using 3 by simp
    finally show ?thesis .
  next
    case 2
    show ?thesis
    proof (cases "cl = []")
      case True
      have "normSegs False W (normSegs True ?acc (s # ss)) = normSegs False W (normSegs True (replicate (Suc k) ''..'' @ []) ss)"
        using 2 True by (cases k) (auto simp: replicate_append_same)
      also have "\<dots> = normSegs False (normSegs False W (replicate (Suc k) ''..'' @ [])) ss"
        by (rule Cons.IH[OF _ ss]) simp
      also have "normSegs False W (replicate (Suc k) ''..'' @ []) = normSegs False ?V [''..'']"
      proof -
        have r: "replicate (Suc k) ''..'' @ [] = replicate k ''..'' @ [''..'']"
          by (simp add: replicate_append_same)
        show ?thesis unfolding r using True by (simp only: normSegs_append append_Nil2)
      qed
      also have "normSegs False (normSegs False ?V [''..'']) ss = normSegs False ?V (s # ss)"
        using 2 by simp
      finally show ?thesis .
    next
      case False
      then have lc: "last cl \<noteq> ''..''" using Cons.prems(1)
        by (metis cleanSeg_def last_in_set list_all_iff)
      have bl: "list_all cleanSeg (butlast cl)" by (rule cleanSeg_butlast[OF Cons.prems(1)])
      have "normSegs False W (normSegs True ?acc (s # ss)) = normSegs False W (normSegs True (replicate k ''..'' @ butlast cl) ss)"
        using 2 False lc by (simp add: butlast_append)
      also have "\<dots> = normSegs False (normSegs False W (replicate k ''..'' @ butlast cl)) ss"
        by (rule Cons.IH[OF bl ss])
      also have "normSegs False W (replicate k ''..'' @ butlast cl) = butlast ?V"
        using normSegs_dots_clean(1)[OF assms(1) bl, of k] V False by (simp add: butlast_append)
      also have "normSegs False (butlast ?V) ss = normSegs False ?V (s # ss)"
        using 2 V False lc by simp
      finally show ?thesis .
    qed
  qed
qed

lemma normSegs_True_form:
  assumes "list_all cleanSeg cl" "\<forall>s\<in>set ss. CHR ''/'' \<notin> set s"
  shows "\<exists>k' cl'. normSegs True (replicate k ''..'' @ cl) ss = replicate k' ''..'' @ cl'
                   \<and> list_all cleanSeg cl'"
  using assms
proof (induction ss arbitrary: k cl)
  case Nil
  then show ?case by auto
next
  case (Cons s ss)
  have ss: "\<forall>s\<in>set ss. CHR ''/'' \<notin> set s" using Cons.prems(2) by simp
  consider "s = [] \<or> s = ''.''" | "s = ''..''" | "s \<noteq> []" "s \<noteq> ''.''" "s \<noteq> ''..''" by blast
  then show ?case
  proof cases
    case 1
    then show ?thesis using Cons.IH[OF Cons.prems(1) ss, of k] by auto
  next
    case 3
    then have "cleanSeg s" using Cons.prems(2) by (simp add: cleanSeg_def)
    then have "list_all cleanSeg (cl @ [s])" using Cons.prems(1) by simp
    from Cons.IH[OF this ss, of k] show ?thesis using 3 by simp
  next
    case 2
    show ?thesis
    proof (cases "cl = []")
      case True
      have r: "replicate k ''..'' @ [''..''] = replicate (Suc k) ''..'' @ []"
        by (simp add: replicate_append_same)
      have "normSegs True (replicate k ''..'' @ cl) (s # ss) = normSegs True (replicate (Suc k) ''..'' @ []) ss"
        using 2 True r by (cases k) auto
      then show ?thesis using Cons.IH[OF _ ss, of "[]" "Suc k"] by simp
    next
      case False
      then have lc: "last cl \<noteq> ''..''" using Cons.prems(1)
        by (metis cleanSeg_def last_in_set list_all_iff)
      have "normSegs True (replicate k ''..'' @ cl) (s # ss) = normSegs True (replicate k ''..'' @ butlast cl) ss"
        using 2 False lc by (simp add: butlast_append)
      then show ?thesis using Cons.IH[OF cleanSeg_butlast[OF Cons.prems(1)] ss, of k] by simp
    qed
  qed
qed

lemma resolve_one_segs:
  assumes "isAbsolute wd"
  shows "pathSegs (resolve wd [x])
         = normSegs False (if isAbsolute x then [] else pathSegs (resolve wd [])) (splitSlash x)"
proof (cases "isAbsolute x")
  case True
  then have "resolveLoop (rev [x] @ [wd]) [] = (x @ ''/'', True)" by (simp add: isAbsolute_def)
  then show ?thesis using resolve_norm[OF assms, of "[x]"] True
    by (simp add: splitSlash_snoc normSegs_append)
next
  case False
  then show ?thesis using resolve_append_rel[OF assms False, of "[]"] by simp
qed

lemma joinSlash_eq_Nil: "\<forall>s\<in>set segs. s \<noteq> [] \<Longrightarrow> joinSlash segs = [] \<longleftrightarrow> segs = []"
  by (cases segs) (auto simp: joinSlash_Cons)

lemma joinSlash_hd: "segs \<noteq> [] \<Longrightarrow> hd segs \<noteq> [] \<Longrightarrow> hd (joinSlash segs) = hd (hd segs)"
  by (cases segs) (auto simp: joinSlash_Cons)

lemma splitSlash_joinSlash': 
  "\<forall>s\<in>set segs. CHR ''/'' \<notin> set s \<Longrightarrow> splitSlash (joinSlash segs) = (if segs = [] then [[]] else segs)"
  using splitSlash_joinSlash by auto

lemma resolve_normalize:
  assumes "isAbsolute wd" "p \<noteq> []"
  shows "pathSegs (resolve wd [normalize p]) = pathSegs (resolve wd [p])"
proof (cases "isAbsolute p")
  case True
  let ?N = "normSegs False [] (splitSlash p)"
  have cl: "list_all cleanSeg ?N" by (rule normSegs_clean) (auto dest: splitSlash_segs_noslash)
  then have ns: "\<forall>s\<in>set ?N. CHR ''/'' \<notin> set s" and ne: "\<forall>s\<in>set ?N. s \<noteq> []"
    by (auto simp: list_all_iff cleanSeg_def)
  have hp: "hd p = CHR ''/''" using True by (simp add: isAbsolute_def)
  define tr where "tr = (if ?N = [] then [] else if last p = CHR ''/'' then ''/'' else [])"
  have n: "normalize p = CHR ''/'' # joinSlash ?N @ tr" and tr: "tr = [] \<or> tr = ''/''"
    using assms(2) hp joinSlash_eq_Nil[OF ne]
    by (auto simp: tr_def normalize_def normalizeString_def Let_def)
  have abs: "isAbsolute (normalize p)" using n by (simp add: isAbsolute_def)
  have "normSegs False [] (splitSlash (normalize p)) = ?N"
    using tr n ns cl by (auto simp: splitSlash_snoc splitSlash_joinSlash' normSegs_append normSegs_clean_id)
  then show ?thesis using resolve_one_segs[OF assms(1), of "normalize p"] resolve_one_segs[OF assms(1), of p] abs True
    by simp
next
  case False
  let ?W = "pathSegs (resolve wd [])"
  let ?M = "normSegs True [] (splitSlash p)"
  have sl: "\<forall>s\<in>set (splitSlash p). CHR ''/'' \<notin> set s" by (auto dest: splitSlash_segs_noslash)
  have W: "list_all cleanSeg ?W" by (rule resolve_segs(1)[OF assms(1)])
  from normSegs_True_form[OF _ sl, of "[]" 0] obtain k cl where M: "?M = replicate k ''..'' @ cl" and cl: "list_all cleanSeg cl"
    by auto
  have ns: "\<forall>s\<in>set ?M. CHR ''/'' \<notin> set s" and ne: "\<forall>s\<in>set ?M. s \<noteq> []"
    using M cl by (auto simp: list_all_iff cleanSeg_def)
  have NS: "normSegs False ?W ?M = normSegs False ?W (splitSlash p)"
    using normSegs_True_False[OF W _ sl, of "[]" 0] by simp
  have hp: "hd p \<noteq> CHR ''/''" using False assms(2) by (simp add: isAbsolute_def)
  have rel: "\<not> isAbsolute (normalize p) \<and> normSegs False ?W (splitSlash (normalize p)) = normSegs False ?W ?M"
  proof (cases "?M = []")
    case True
    then have "normalize p = ''.'' \<or> normalize p = ''./''"
      using assms(2) hp by (auto simp: normalize_def normalizeString_def Let_def)
    then show ?thesis using True by (auto simp: isAbsolute_def)
  next
    case Mne: False
    define tr where "tr = (if last p = CHR ''/'' then ''/'' else [])"
    have n: "normalize p = joinSlash ?M @ tr" and tr: "tr = [] \<or> tr = ''/''"
      using assms(2) hp joinSlash_eq_Nil[OF ne] Mne
      by (auto simp: tr_def normalize_def normalizeString_def Let_def)
    have "hd ?M \<noteq> []" using ne Mne by simp
    moreover have "hd (hd ?M) \<noteq> CHR ''/''" using ns Mne \<open>hd ?M \<noteq> []\<close>
      by (metis hd_in_set)
    ultimately have h: "hd (joinSlash ?M) \<noteq> CHR ''/''" using joinSlash_hd[OF Mne] by simp
    have jne: "joinSlash ?M \<noteq> []" using joinSlash_eq_Nil[OF ne] Mne by simp
    have "\<not> isAbsolute (normalize p)" using n h jne by (simp add: isAbsolute_def)
    moreover have "normSegs False ?W (splitSlash (normalize p)) = normSegs False ?W ?M"
      using tr n ns Mne by (auto simp: splitSlash_snoc splitSlash_joinSlash' normSegs_append)
    ultimately show ?thesis by simp
  qed
  then show ?thesis using resolve_one_segs[OF assms(1), of "normalize p"] resolve_one_segs[OF assms(1), of p] False NS
    by simp
qed

lemma join_child:
  assumes "isAbsolute wd" "cleanSeg nm"
  shows "pathSegs (resolve wd [join [d, nm]]) = pathSegs (resolve wd [d]) @ [nm]"
proof -
  have nm: "nm \<noteq> []" "CHR ''/'' \<notin> set nm" using assms(2) by (auto simp: cleanSeg_def)
  then have na: "\<not> isAbsolute nm" by (auto simp: isAbsolute_def) (metis hd_in_set)
  have step: "normSegs False S [nm] = S @ [nm]" for S
    using normSegs_clean_id[of "[nm]" False S] assms(2) by simp
  show ?thesis
  proof (cases "d = []")
    case True
    have "join [d, nm] = normalize nm" using True nm by (simp add: join_def)
    then have "pathSegs (resolve wd [join [d, nm]]) = pathSegs (resolve wd [nm])"
      using resolve_normalize[OF assms(1) nm(1)] by simp
    also have "\<dots> = pathSegs (resolve wd []) @ [nm]"
      using resolve_one_segs[OF assms(1), of nm] na nm step by (simp add: splitSlash_noslash)
    also have "resolve wd [] = resolve wd [d]" using True by (simp add: resolve_def)
    finally show ?thesis .
  next
    case False
    let ?x = "d @ CHR ''/'' # nm"
    have "join [d, nm] = normalize ?x" using False nm by (simp add: join_def)
    then have "pathSegs (resolve wd [join [d, nm]]) = pathSegs (resolve wd [?x])"
      using resolve_normalize[OF assms(1), of ?x] by simp
    also have "\<dots> = normSegs False (if isAbsolute d then [] else pathSegs (resolve wd [])) (splitSlash d @ [nm])"
      using resolve_one_segs[OF assms(1), of ?x] False nm
      by (simp add: isAbsolute_def splitSlash_append splitSlash_noslash)
    also have "\<dots> = pathSegs (resolve wd [d]) @ [nm]"
      using resolve_one_segs[OF assms(1), of d] step by (simp add: normSegs_append)
    finally show ?thesis .
  qed
qed

lemma relative_descendant:
  assumes "isAbsolute wd" "pathSegs (resolve wd [x]) = pathSegs (resolve wd [base]) @ rs"
  shows "relative wd base x = joinSlash rs"
  using relative_segs[OF assms(1), of base x] assms(2) dropCommon_prefix[of "pathSegs (resolve wd [base])" rs]
  by simp

lemma dirname_joinSlash:
  assumes "list_all cleanSeg (p @ [nm])"
  shows "dirname (joinSlash (p @ [nm])) = (if p = [] then ''.'' else joinSlash p)"
proof -
  have nm: "nm \<noteq> []" "CHR ''/'' \<notin> set nm" using assms by (auto simp: cleanSeg_def)
  then have lnm: "last nm \<noteq> CHR ''/''" using last_in_set[of nm] by metis
  show ?thesis
  proof (cases "p = []")
    case True
    obtain ch r where r: "nm = ch # r" using nm by (cases nm) auto
    have "CHR ''/'' \<notin> set r" using nm r by simp
    then have "dropWhile (\<lambda>c. c \<noteq> CHR ''/'') (rev (stripTrailingSlashes r)) = []"
      by (auto simp: stripTrailingSlashes_def dropWhile_eq_Nil_conv dest: set_dropWhileD)
    then show ?thesis using True r nm by (auto simp: dirname_def Let_def)
  next
    case False
    let ?j = "joinSlash p"
    have pne: "\<forall>s\<in>set p. s \<noteq> []" using assms by (auto simp: list_all_iff cleanSeg_def)
    then have jne: "?j \<noteq> []" using joinSlash_eq_Nil[of p] False by simp
    have hj: "hd ?j \<noteq> CHR ''/''"
    proof -
      have "hd p \<noteq> []" "CHR ''/'' \<notin> set (hd p)" using assms False by (auto simp: list_all_iff cleanSeg_def)
      then show ?thesis using joinSlash_hd[OF False] by (metis hd_in_set)
    qed
    have js: "joinSlash (p @ [nm]) = ?j @ CHR ''/'' # nm"
      using False by (induction p rule: joinSlash.induct) auto
    obtain ch r where r: "?j = ch # r" using jne by (cases ?j) auto
    have tl: "tl (joinSlash (p @ [nm])) = r @ CHR ''/'' # nm" using js r by simp
    have st: "stripTrailingSlashes (r @ CHR ''/'' # nm) = r @ CHR ''/'' # nm"
      using nm lnm by (cases "rev nm") (auto simp: stripTrailingSlashes_def last_rev hd_rev)
    have dw: "dropWhile (\<lambda>c. c \<noteq> CHR ''/'') (rev nm @ CHR ''/'' # rev r) = CHR ''/'' # rev r"
    proof -
      have "dropWhile (\<lambda>c. c \<noteq> CHR ''/'') (rev nm @ CHR ''/'' # rev r)
            = dropWhile (\<lambda>c. c \<noteq> CHR ''/'') (CHR ''/'' # rev r)"
        by (rule dropWhile_append2) (use nm in auto)
      then show ?thesis by simp
    qed
    show ?thesis using False r hj js by (simp add: dirname_def Let_def tl st dw del: joinSlash.simps)
  qed
qed

lemma joinSlash_not_dot:
  assumes "list_all cleanSeg p" "p \<noteq> []"
  shows "joinSlash p \<noteq> ''.''"
proof (cases p)
  case Nil
  then show ?thesis using assms by simp
next
  case (Cons a q)
  show ?thesis
  proof (cases q)
    case Nil
    then show ?thesis using Cons assms by (auto simp: cleanSeg_def)
  next
    case (Cons b q')
    have "a \<noteq> []" using assms \<open>p = a # q\<close> by (simp add: cleanSeg_def)
    then have "length (joinSlash p) \<ge> 2" using \<open>p = a # q\<close> Cons by (cases a) auto
    then show ?thesis by auto
  qed
qed

lemma joinSlash_snoc: "p \<noteq> [] \<Longrightarrow> joinSlash (p @ [nm]) = joinSlash p @ CHR ''/'' # nm"
  by (induction p rule: joinSlash.induct) auto

lemma joinSlash_inj:
  assumes "list_all cleanSeg p" "list_all cleanSeg q" "joinSlash p = joinSlash q"
  shows "p = q"
proof -
  have np: "\<forall>s\<in>set p. CHR ''/'' \<notin> set s" "\<forall>s\<in>set p. s \<noteq> []"
    and nq: "\<forall>s\<in>set q. CHR ''/'' \<notin> set s" "\<forall>s\<in>set q. s \<noteq> []"
    using assms by (auto simp: list_all_iff cleanSeg_def)
  have "(if p = [] then [[]] else p) = (if q = [] then [[]] else q)"
    using splitSlash_joinSlash'[OF np(1)] splitSlash_joinSlash'[OF nq(1)] assms(3) by simp
  then show ?thesis using np(2) nq(2) by (auto split: if_splits)
qed


section \<open>Facts about the file system\<close>

lemma isDir_kindOf: "isDir n \<longleftrightarrow> kindOf n = Directory"
  by (cases n rule: kindOf.cases) auto

lemma get_File_Cons [simp]: "get (File c m) x = (if x = [] then Some (File c m) else None)"
  by (cases x) auto

lemma get_Symlink_Cons [simp]: "get (Symlink l) x = (if x = [] then Some (Symlink l) else None)"
  by (cases x) auto



lemma get_append:
  shows "get t (xs @ ys) = (case get t xs of None \<Rightarrow> None | Some n \<Rightarrow> get n ys)"
    and "getIn es s (xs @ ys) = (case getIn es s xs of None \<Rightarrow> None | Some n \<Rightarrow> get n ys)"
  by (induction t xs and es s xs rule: get_getIn.induct) auto

lemma get_snoc_parent: "get t (xs @ [s]) \<noteq> None \<Longrightarrow> isDir (get t xs)"
proof -
  assume a: "get t (xs @ [s]) \<noteq> None"
  then obtain n where n: "get t xs = Some n" "get n [s] \<noteq> None"
    by (auto simp: get_append(1) split: option.splits)
  then show ?thesis by (cases n) auto
qed






lemma put_leaf_kinds:
  shows "n = File c m \<or> n = Dir [] \<Longrightarrow> kindOf (get t loc) \<in> {Missing, Regular} \<Longrightarrow>
           x \<noteq> loc \<Longrightarrow> kindOf (get (put t loc n) x) = kindOf (get t x)"
    and "n = File c m \<or> n = Dir [] \<Longrightarrow> kindOf (getIn es s ss) \<in> {Missing, Regular} \<Longrightarrow>
           y # ys \<noteq> s # ss \<Longrightarrow>
           kindOf (getIn (putIn es s ss n) y ys) = kindOf (getIn es y ys)"
proof (induction t loc n and es s ss n arbitrary: x and y ys rule: put_putIn.induct)
  case (1 t new)
  then show ?case by (cases t; cases x) auto
next
  case (2 es s ss new)
  then show ?case by (cases x) auto
next
  case (3 c' m' s ss new)
  then show ?case by simp
next
  case (4 l s ss new)
  then show ?case by simp
next
  case (5 s ss new)
  then show ?case by (cases ys) auto
next
  case (6 k c' es s ss new)
  then show ?case by auto
qed

lemma putIn_names: "(k, v) \<in> set (putIn es s ss n) \<Longrightarrow> k = s \<or> k \<in> fst ` set es"
  by (induction es) (force split: if_splits)+

lemma wfEntries_Cons: "wfEntries ((nm, n) # ents) = (cleanSeg nm \<and> nm \<notin> fst ` set ents \<and> wfNode n \<and> wfEntries ents)"
  by (cases n) auto

lemma wf_put:
  shows "n = File c m \<or> n = Dir [] \<Longrightarrow> wfNode t \<Longrightarrow> list_all cleanSeg loc \<Longrightarrow>
           wfNode (put t loc n)"
    and "n = File c m \<or> n = Dir [] \<Longrightarrow> wfEntries es \<Longrightarrow> cleanSeg s \<Longrightarrow>
           list_all cleanSeg ss \<Longrightarrow> wfEntries (putIn es s ss n)"
proof (induction t loc n and es s ss n rule: put_putIn.induct)
  case (1 t new)
  then show ?case by auto
next
  case (2 es s ss new)
  then show ?case by simp
next
  case (3 c' m' s ss new)
  then show ?case by simp
next
  case (4 l s ss new)
  then show ?case by simp
next
  case (5 s ss new)
  then show ?case by (auto simp: wfEntries_Cons)
next
  case (6 k c' es s ss new)
  show ?case
  proof (cases "k = s")
    case True
    then show ?thesis using 6 by (auto simp: wfEntries_Cons)
  next
    case False
    have "k \<notin> fst ` set (putIn es s ss new)"
      using putIn_names[of k _ es s ss new] False "6.prems"(2) by (auto simp: wfEntries_Cons)
    then show ?thesis using 6 False by (auto simp: wfEntries_Cons)
  qed
qed

lemma get_put_root:
  shows "get t A = Some (Dir es) \<Longrightarrow> loc = A @ r \<Longrightarrow> r \<noteq> [] \<Longrightarrow>
           get (put t loc n) A = Some (Dir (putIn es (hd r) (tl r) n))"
    and "getIn es0 s A' = Some (Dir es) \<Longrightarrow> ss = A' @ r \<Longrightarrow> r \<noteq> [] \<Longrightarrow>
           getIn (putIn es0 s ss n) s A' = Some (Dir (putIn es (hd r) (tl r) n))"
proof (induction t loc n and es0 s ss n arbitrary: A and A' rule: put_putIn.induct)
  case (1 t new)
  then show ?case by simp
next
  case (2 es' s ss new)
  show ?case
  proof (cases A)
    case Nil
    then show ?thesis using 2 by (cases r) auto
  next
    case (Cons a A2)
    then show ?thesis using 2 by auto
  qed
next
  case (3 c' m' s ss new)
  then show ?case by (cases A) (auto split: if_splits)
next
  case (4 l s ss new)
  then show ?case by (cases A) (auto split: if_splits)
next
  case (5 s ss new)
  then show ?case by simp
next
  case (6 k c' es' s ss new)
  then show ?case by auto
qed

lemma get_prefix_isDir:
  "get t (cur @ x # xs) \<noteq> None \<Longrightarrow> isDir (get t cur)"
proof -
  assume a: "get t (cur @ x # xs) \<noteq> None"
  have "get t (cur @ x # xs) = (case get t (cur @ [x]) of None \<Rightarrow> None | Some n \<Rightarrow> get n xs)"
    using get_append(1)[of t "cur @ [x]" xs] by simp
  then have "get t (cur @ [x]) \<noteq> None" using a by (auto split: option.splits)
  then show ?thesis by (rule get_snoc_parent)
qed

lemma isDir_exists: "isDir n \<Longrightarrow> n \<noteq> None"
  by (cases n rule: isDir.cases) auto

lemma walk_descend:
  "list_all cleanSeg xs \<Longrightarrow> isDir (get t (cur @ xs)) \<Longrightarrow>
     walk t f cur (xs @ ys) = walk t f (cur @ xs) ys"
proof (induction xs arbitrary: cur)
  case Nil
  then show ?case by simp
next
  case (Cons x xs)
  have cl: "list_all cleanSeg xs" using Cons.prems(1) by simp
  have x: "x \<noteq> ''.''" "x \<noteq> ''..''" using Cons.prems(1) by (auto simp: cleanSeg_def)
  have d: "isDir (get t ((cur @ [x]) @ xs))" using Cons.prems(2) by simp
  have "isDir (get t (cur @ [x]))"
  proof (cases xs)
    case Nil
    then show ?thesis using d by simp
  next
    case (Cons y ys')
    have "get t ((cur @ [x]) @ y # ys') \<noteq> None" using isDir_exists[OF d] Cons by simp
    then show ?thesis by (rule get_prefix_isDir)
  qed
  then obtain es where es: "get t (cur @ [x]) = Some (Dir es)"
    by (cases "get t (cur @ [x])" rule: isDir.cases) auto
  have "walk t f cur ((x # xs) @ ys) = walk t f (cur @ [x]) (xs @ ys)"
    using x es by simp
  also have "\<dots> = walk t f ((cur @ [x]) @ xs) ys" by (rule Cons.IH[OF cl d])
  finally show ?case by simp
qed

lemma mkdirp_descend:
  "list_all cleanSeg xs \<Longrightarrow> isDir (get t (cur @ xs)) \<Longrightarrow>
     mkdirp t f cur (xs @ ys) = mkdirp t f (cur @ xs) ys"
proof (induction xs arbitrary: cur)
  case Nil
  then show ?case by simp
next
  case (Cons x xs)
  have cl: "list_all cleanSeg xs" using Cons.prems(1) by simp
  have x: "x \<noteq> ''.''" "x \<noteq> ''..''" using Cons.prems(1) by (auto simp: cleanSeg_def)
  have d: "isDir (get t ((cur @ [x]) @ xs))" using Cons.prems(2) by simp
  have "isDir (get t (cur @ [x]))"
  proof (cases xs)
    case Nil
    then show ?thesis using d by simp
  next
    case (Cons y ys')
    have "get t ((cur @ [x]) @ y # ys') \<noteq> None" using isDir_exists[OF d] Cons by simp
    then show ?thesis by (rule get_prefix_isDir)
  qed
  then obtain es where es: "get t (cur @ [x]) = Some (Dir es)"
    by (cases "get t (cur @ [x])" rule: isDir.cases) auto
  have "mkdirp t f cur ((x # xs) @ ys) = mkdirp t f (cur @ [x]) (xs @ ys)"
    using x es by simp
  also have "\<dots> = mkdirp t f ((cur @ [x]) @ xs) ys" by (rule Cons.IH[OF cl d])
  finally show ?case by simp
qed


section \<open>Facts about the handlers\<close>


lemma upload_write_target:
  assumes "handleUpload cfg now hdr b t = (r, t', ops)" "OpWriteFile p data \<in> set ops"
  shows "\<exists>f d. orEmpty (filename b) = JStr f \<and> f \<noteq> [] \<and> dirArg (orEmpty (dir b)) = Some d
           \<and> p = resolve (cwd cfg) [resolve (cwd cfg) [BASE_DIR cfg, d], basename f]
           \<and> isPathInside (cwd cfg) (BASE_DIR cfg) p
           \<and> String (orEmpty (content b)) = Some data"
proof (cases "authCheck cfg hdr")
  case False
  then show ?thesis using assms by (simp add: handleUpload_def)
next
  case True
  show ?thesis
  proof (cases "orEmpty (filename b)")
    case (JStr f)
    show ?thesis
    proof (cases "f = []")
      case True
      then show ?thesis using assms \<open>authCheck cfg hdr\<close> JStr by (simp add: handleUpload_def)
    next
      case False
      show ?thesis
      proof (cases "dirArg (orEmpty (dir b))")
        case None
        then show ?thesis using assms \<open>authCheck cfg hdr\<close> JStr False by (simp add: handleUpload_def)
      next
        case (Some d)
        let ?p = "resolve (cwd cfg) [resolve (cwd cfg) [BASE_DIR cfg, d], basename f]"
        show ?thesis
        proof (cases "isPathInside (cwd cfg) (BASE_DIR cfg) ?p")
          case False
          then show ?thesis using assms \<open>authCheck cfg hdr\<close> JStr \<open>f \<noteq> []\<close> Some
            by (simp add: handleUpload_def Let_def)
        next
          case True
          have "p = ?p \<and> String (orEmpty (content b)) = Some data"
            using assms \<open>authCheck cfg hdr\<close> JStr \<open>f \<noteq> []\<close> Some True
            by (auto simp: handleUpload_def Let_def split: sum.splits option.splits)
          then show ?thesis using JStr \<open>f \<noteq> []\<close> Some True by auto
        qed
      qed
    qed
  qed (use assms True in \<open>simp_all add: handleUpload_def\<close>)
qed

lemma upload_ok:
  assumes "handleUpload cfg now hdr b t = (UploadOk p n, t', ops)"
  shows "\<exists>f d t1 data. orEmpty (filename b) = JStr f \<and> f \<noteq> [] \<and> dirArg (orEmpty (dir b)) = Some d
           \<and> p = resolve (cwd cfg) [resolve (cwd cfg) [BASE_DIR cfg, d], basename f]
           \<and> isPathInside (cwd cfg) (BASE_DIR cfg) p
           \<and> authCheck cfg hdr
           \<and> String (orEmpty (content b)) = Some data
           \<and> mkdir t (cwd cfg) (resolve (cwd cfg) [BASE_DIR cfg, d]) = Inr t1
           \<and> writeFile t1 (cwd cfg) now p data = Inr t'
           \<and> n = length data
           \<and> ops = [OpMkdir (resolve (cwd cfg) [BASE_DIR cfg, d]), OpWriteFile p data]"
proof -
  have a: "authCheck cfg hdr" using assms by (auto simp: handleUpload_def split: if_splits)
  obtain f where f: "orEmpty (filename b) = JStr f" "f \<noteq> []"
    using assms a by (cases "orEmpty (filename b)") (auto simp: handleUpload_def split: if_splits)
  obtain d where d: "dirArg (orEmpty (dir b)) = Some d"
    using assms a f by (cases "dirArg (orEmpty (dir b))") (auto simp: handleUpload_def)
  let ?p = "resolve (cwd cfg) [resolve (cwd cfg) [BASE_DIR cfg, d], basename f]"
  have ins: "isPathInside (cwd cfg) (BASE_DIR cfg) ?p"
    using assms a f d by (auto simp: handleUpload_def Let_def split: if_splits)
  show ?thesis
    using assms a f d ins
    by (auto simp: handleUpload_def Let_def split: sum.splits option.splits)
qed

section \<open>Facts about the listing\<close>


lemma listLoop_documents:
  "isAbsolute wd \<Longrightarrow> wfEntries ents \<Longrightarrow>
     pathSegs (resolve wd [d]) = pathSegs (resolve wd [base]) @ pre \<Longrightarrow>
     listLoop wd ents d base = map (\<lambda>(p, c, m). entryOf (pre @ p, c, m)) (documents ents)"
proof (induction wd ents d base arbitrary: pre rule: listLoop.induct)
  case (1 wd d base)
  show ?case by simp
next
  case (2 wd nm c m ents d base)
  have cn: "cleanSeg nm" and wf: "wfEntries ents" using "2.prems"(2) by auto
  have clp: "list_all cleanSeg pre"
    using resolve_segs(1)[OF "2.prems"(1), of "[d]"] "2.prems"(3) by simp
  have segs: "pathSegs (resolve wd [join [d, nm]]) = pathSegs (resolve wd [base]) @ (pre @ [nm])"
    using join_child[OF "2.prems"(1) cn, of d] "2.prems"(3) by simp
  have rel: "relative wd base (join [d, nm]) = joinSlash (pre @ [nm])"
    by (rule relative_descendant[OF "2.prems"(1) segs])
  have cl: "list_all cleanSeg (pre @ [nm])" using clp cn by simp
  have dn: "(if dirname (joinSlash (pre @ [nm])) = ''.'' then [] else dirname (joinSlash (pre @ [nm])))
            = joinSlash pre"
    using dirname_joinSlash[OF cl] joinSlash_not_dot[OF clp] by auto
  have rest: "listLoop wd ents d base = map (\<lambda>(p, c, m). entryOf (pre @ p, c, m)) (documents ents)"
    by (rule "2.IH"[OF "2.prems"(1) wf "2.prems"(3)])
  show ?case using rel dn rest by (simp add: Let_def entryOf_def)
next
  case (3 wd nm sub ents d base)
  have cn: "cleanSeg nm" and wfs: "wfEntries sub" and wf: "wfEntries ents" using "3.prems"(2) by auto
  have segs: "pathSegs (resolve wd [join [d, nm]]) = pathSegs (resolve wd [base]) @ (pre @ [nm])"
    using join_child[OF "3.prems"(1) cn, of d] "3.prems"(3) by simp
  have a: "listLoop wd sub (join [d, nm]) base
           = map (\<lambda>(p, c, m). entryOf ((pre @ [nm]) @ p, c, m)) (documents sub)"
    by (rule "3.IH"(1)[OF "3.prems"(1) wfs segs])
  have b: "listLoop wd ents d base = map (\<lambda>(p, c, m). entryOf (pre @ p, c, m)) (documents ents)"
    by (rule "3.IH"(2)[OF "3.prems"(1) wf "3.prems"(3)])
  show ?case using a b by (simp add: case_prod_unfold comp_def)
next
  case (4 wd nm l ents d base)
  have wf: "wfEntries ents" using "4.prems"(2) by auto
  show ?case using "4.IH"[OF "4.prems"(1) wf "4.prems"(3)] by simp
qed

lemma documents_names:
  "(p, c, m) \<in> set (documents ents) \<Longrightarrow> p \<noteq> [] \<and> hd p \<in> fst ` set ents"
  by (induction ents arbitrary: p rule: documents.induct) (auto split: if_splits)

lemma documents_regular:
  "wfEntries ents \<Longrightarrow>
     r \<in> fst ` set (documents ents) \<longleftrightarrow>
       r \<noteq> [] \<and> kindOf (getIn ents (hd r) (tl r)) = Regular \<and> endsWith (last r) ''.drawnix''"
proof (induction ents arbitrary: r rule: documents.induct)
  case 1
  then show ?case by simp
next
  case (2 nm c m ents)
  then have wf: "wfEntries ents" and nin: "nm \<notin> fst ` set ents" by auto
  have other: "r \<in> fst ` set (documents ents) \<Longrightarrow> hd r \<noteq> nm" for r
    using documents_names[of r _ _ ents] nin by force
  show ?case
  proof (cases "r \<noteq> [] \<and> hd r = nm")
    case True
    then obtain rs where r: "r = nm # rs" by (cases r) auto
    show ?thesis using other[of r] r by (cases rs) (auto split: if_splits)
  next
    case False
    then show ?thesis using "2.IH"[OF wf, of r] by (cases r) (auto split: if_splits)
  qed
next
  case (3 nm sub ents)
  then have wf: "wfEntries ents" and wfs: "wfEntries sub" and nin: "nm \<notin> fst ` set ents" by auto
  have other: "r \<in> fst ` set (documents ents) \<Longrightarrow> hd r \<noteq> nm" for r
    using documents_names[of r _ _ ents] nin by force
  show ?case
  proof (cases "r \<noteq> [] \<and> hd r = nm")
    case True
    then obtain rs where r: "r = nm # rs" by (cases r) auto
    have "r \<in> fst ` set (documents ((nm, Dir sub) # ents)) \<longleftrightarrow> rs \<in> fst ` set (documents sub)"
      using other[of r] r by (force simp: image_iff)
    also have "\<dots> \<longleftrightarrow> rs \<noteq> [] \<and> kindOf (getIn sub (hd rs) (tl rs)) = Regular \<and> endsWith (last rs) ''.drawnix''"
      by (rule "3.IH"(1)[OF wfs])
    finally show ?thesis using r by (cases rs) auto
  next
    case False
    have "r \<in> fst ` set (documents ((nm, Dir sub) # ents)) \<longleftrightarrow> r \<in> fst ` set (documents ents)"
      using False by (cases r) (auto simp: image_iff)
    then show ?thesis using "3.IH"(2)[OF wf, of r] False by (cases r) auto
  qed
next
  case (4 nm l ents)
  then have wf: "wfEntries ents" and nin: "nm \<notin> fst ` set ents" by auto
  have other: "r \<in> fst ` set (documents ents) \<Longrightarrow> hd r \<noteq> nm" for r
    using documents_names[of r _ _ ents] nin by force
  show ?case
  proof (cases "r \<noteq> [] \<and> hd r = nm")
    case True
    then obtain rs where r: "r = nm # rs" by (cases r) auto
    show ?thesis using other[of r] r by (cases rs) (auto split: if_splits)
  next
    case False
    then show ?thesis using "4.IH"[OF wf, of r] by (cases r) (auto split: if_splits)
  qed
qed

lemma documents_distinct: "wfEntries ents \<Longrightarrow> distinct (map fst (documents ents))"
proof (induction ents rule: documents.induct)
  case 1
  then show ?case by simp
next
  case (2 nm c m ents)
  then have nin: "nm \<notin> fst ` set ents" by auto
  have "[nm] \<notin> fst ` set (documents ents)"
    using documents_names[of "[nm]" _ _ ents] nin by force
  then show ?case using 2 by auto
next
  case (3 nm sub ents)
  then have nin: "nm \<notin> fst ` set ents" by auto
  have disj: "nm # p \<notin> fst ` set (documents ents)" for p
    using documents_names[of "nm # p" _ _ ents] nin by force
  have eq: "map fst (documents ((nm, Dir sub) # ents))
            = map ((#) nm) (map fst (documents sub)) @ map fst (documents ents)"
    by (simp add: case_prod_unfold comp_def)
  have d1: "distinct (map ((#) nm) (map fst (documents sub)))"
    using 3 by (simp add: distinct_map inj_on_def)
  have d2: "distinct (map fst (documents ents))" using 3 by simp
  have "set (map ((#) nm) (map fst (documents sub))) \<inter> set (map fst (documents ents)) = {}"
    using disj by auto
  then show ?case unfolding eq using d1 d2 by (simp only: distinct_append)
next
  case (4 nm l ents)
  then show ?case by simp
qed

lemma documents_clean:
  "wfEntries ents \<Longrightarrow> (p, c, m) \<in> set (documents ents) \<Longrightarrow> list_all cleanSeg p"
  by (induction ents arbitrary: p rule: documents.induct) (auto split: if_splits)


section \<open>The path guard and the upload target\<close>

text \<open>
  Claim C1. The claim is that \<open>isPathInside(root, p)\<close> holds exactly when the resolved
  \<open>p\<close> is a strict descendant of \<open>root\<close>. The guard tests the relative path with
  \<open>startsWith('..')\<close>, which is true of the parent segment \<open>..\<close> and also of any name
  that begins with two dots. Evaluated at the root \<open>/data\<close> and the path
  \<open>/data/..notes.drawnix\<close>: the path is a strict descendant of the root, the guard
  returns false, and an upload of the file name \<open>..notes.drawnix\<close> is answered
  400 \<open>Invalid path\<close>.
\<close>

theorem isPathInside_rejects_child:
  "strictDescendant ''/app'' ''/data'' ''/data/..notes.drawnix''
   \<and> \<not> isPathInside ''/app'' ''/data'' ''/data/..notes.drawnix''
   \<and> handleUpload \<lparr>cwd = ''/app'', BASE_DIR = ''/data'', REQ_TOKEN = []\<rparr> 9 None
        \<lparr>filename = JStr ''..notes.drawnix'', content = JStr ''X'', dir = JUndefined\<rparr>
        (Dir [(''data'', Dir [])])
       = (Fail 400 ''Invalid path'', Dir [(''data'', Dir [])], [])"
  by code_simp

text \<open>
  Claim C2. Whenever the upload handler writes a file, the path it writes is
  \<open>resolve(resolve(BASE_DIR, d), basename(f))\<close> for the file name \<open>f\<close> and the string
  \<open>d\<close> of the \<open>dir\<close> field (empty when the field is absent). The base name has no
  slash, and is the last segment of a name that ends in one: the directories written in
  the file name are dropped. The path written is a strict descendant of the storage root;
  for the file name \<open>../../etc/passwd\<close> and no \<open>dir\<close> it is the entry \<open>passwd\<close> of the
  storage root itself.
\<close>

theorem upload_target_path:
  assumes "isAbsolute (cwd cfg)"
    and "handleUpload cfg now hdr b t = (r, t', ops)"
    and "OpWriteFile p data \<in> set ops"
  shows "\<exists>f d. orEmpty (filename b) = JStr f \<and> dirArg (orEmpty (dir b)) = Some d
           \<and> p = resolve (cwd cfg) [resolve (cwd cfg) [BASE_DIR cfg, d], basename f]
           \<and> CHR ''/'' \<notin> set (basename f)
           \<and> (\<forall>pre n. f = pre @ CHR ''/'' # n \<and> n \<noteq> [] \<and> CHR ''/'' \<notin> set n \<longrightarrow> basename f = n)
           \<and> strictDescendant (cwd cfg) (BASE_DIR cfg) p
           \<and> (f = ''../../etc/passwd'' \<and> d = [] \<longrightarrow>
                pathSegs p = pathSegs (resolve (cwd cfg) [BASE_DIR cfg]) @ [''passwd''])"
proof -
  from upload_write_target[OF assms(2,3)] obtain f d where
    f: "orEmpty (filename b) = JStr f" and d: "dirArg (orEmpty (dir b)) = Some d"
    and p: "p = resolve (cwd cfg) [resolve (cwd cfg) [BASE_DIR cfg, d], basename f]"
    and ins: "isPathInside (cwd cfg) (BASE_DIR cfg) p" by blast
  have sd: "strictDescendant (cwd cfg) (BASE_DIR cfg) p"
    by (rule isPathInside_strictDescendant[OF assms(1) ins])
  have pw: "pathSegs p = pathSegs (resolve (cwd cfg) [BASE_DIR cfg]) @ [''passwd'']"
    if "f = ''../../etc/passwd''" "d = []"
  proof -
    have bn: "basename f = ''passwd''" unfolding that by code_simp
    have cs: "cleanSeg ''passwd''" by (simp add: cleanSeg_def)
    have "resolve (cwd cfg) [BASE_DIR cfg, d] = resolve (cwd cfg) [BASE_DIR cfg]"
      using resolve_empty_last[OF assms(1), of "[BASE_DIR cfg]"] that by simp
    then show ?thesis unfolding p bn using resolve_child[OF assms(1) cs, of "[BASE_DIR cfg]"] by simp
  qed
  show ?thesis
    using f d p sd pw basename_noslash[of f] basename_last_segment by blast
qed

theorem upload_target_path_witness:
  "isAbsolute ''/app''
   \<and> handleUpload \<lparr>cwd = ''/app'', BASE_DIR = ''/data'', REQ_TOKEN = []\<rparr> 9 None
        \<lparr>filename = JStr ''../../etc/passwd'', content = JStr ''X'', dir = JUndefined\<rparr>
        (Dir [(''data'', Dir [])])
       = (UploadOk ''/data/passwd'' 1, Dir [(''data'', Dir [(''passwd'', File ''X'' 9)])],
          [OpMkdir ''/data'', OpWriteFile ''/data/passwd'' ''X''])
   \<and> strictDescendant ''/app'' ''/data'' ''/data/passwd''
   \<and> pathSegs ''/data/passwd'' = [''data'', ''passwd'']"
proof -
  let ?cfg = "\<lparr>cwd = ''/app'', BASE_DIR = ''/data'', REQ_TOKEN = []\<rparr>"
  let ?b = "\<lparr>filename = JStr ''../../etc/passwd'', content = JStr ''X'', dir = JUndefined\<rparr>"
  have a: "isAbsolute (cwd ?cfg)" by (simp add: isAbsolute_def)
  have h: "handleUpload ?cfg 9 None ?b (Dir [(''data'', Dir [])])
       = (UploadOk ''/data/passwd'' 1, Dir [(''data'', Dir [(''passwd'', File ''X'' 9)])],
          [OpMkdir ''/data'', OpWriteFile ''/data/passwd'' ''X''])"
    by code_simp
  have m: "OpWriteFile ''/data/passwd'' ''X'' \<in> set [OpMkdir ''/data'', OpWriteFile ''/data/passwd'' ''X'']"
    by simp
  from upload_target_path [OF a h m] obtain f d where
    f: "orEmpty (filename ?b) = JStr f" and d: "dirArg (orEmpty (dir ?b)) = Some d"
    and sd: "strictDescendant (cwd ?cfg) (BASE_DIR ?cfg) ''/data/passwd''"
    and pw: "f = ''../../etc/passwd'' \<and> d = [] \<longrightarrow>
              pathSegs ''/data/passwd'' = pathSegs (resolve (cwd ?cfg) [BASE_DIR ?cfg]) @ [''passwd'']"
    by blast
  have "f = ''../../etc/passwd''" using f by (simp add: orEmpty_def)
  moreover have "d = []" using d by (simp add: orEmpty_def dirArg_def)
  moreover have "pathSegs (resolve ''/app'' [''/data'']) = [''data'']" by code_simp
  ultimately have "pathSegs ''/data/passwd'' = [''data'', ''passwd'']" using pw by simp
  then show ?thesis using a h sd by simp
qed

section \<open>Access control and the guard come before any file system call\<close>

text \<open>
  Claim C3. An upload or a read whose candidate path fails the containment check is
  answered 400 \<open>Invalid path\<close>; the handler has then made no call on the file system
  (no directory made, nothing written, read or examined) and the file system is as it was.
  The candidate of an upload is built once the request is authorized, the file name is a
  non-empty string and the \<open>dir\<close> field has a string form; that of a read once the
  request is authorized and the path, leading slashes dropped, is not empty.
\<close>

theorem invalid_path_no_io:
  "(authCheck cfg hdr \<and> orEmpty (filename b) = JStr f \<and> f \<noteq> []
      \<and> dirArg (orEmpty (dir b)) = Some d
      \<and> \<not> isPathInside (cwd cfg) (BASE_DIR cfg)
            (resolve (cwd cfg) [resolve (cwd cfg) [BASE_DIR cfg, d], basename f])
    \<longrightarrow> handleUpload cfg now hdr b t = (Fail 400 ''Invalid path'', t, []))
   \<and> (authCheck cfg hdr
      \<and> dropWhile (\<lambda>c. c = CHR ''/'') (case q of None \<Rightarrow> [] | Some p \<Rightarrow> p) = rel \<and> rel \<noteq> []
      \<and> \<not> isPathInside (cwd cfg) (BASE_DIR cfg) (resolve (cwd cfg) [BASE_DIR cfg, rel])
    \<longrightarrow> handleReadFile cfg hdr q t = (Fail 400 ''Invalid path'', t, []))"
  by (auto simp: handleUpload_def handleReadFile_def Let_def)

theorem invalid_path_no_io_witness:
  "handleUpload \<lparr>cwd = ''/app'', BASE_DIR = ''/data'', REQ_TOKEN = []\<rparr> 9 None
        \<lparr>filename = JStr ''a.drawnix'', content = JStr ''X'', dir = JStr ''../etc''\<rparr>
        (Dir [(''data'', Dir [])])
       = (Fail 400 ''Invalid path'', Dir [(''data'', Dir [])], [])
   \<and> handleReadFile \<lparr>cwd = ''/app'', BASE_DIR = ''/data'', REQ_TOKEN = []\<rparr> None
        (Some ''../secret'') (Dir [(''data'', Dir [])])
       = (Fail 400 ''Invalid path'', Dir [(''data'', Dir [])], [])"
proof -
  let ?cfg = "\<lparr>cwd = ''/app'', BASE_DIR = ''/data'', REQ_TOKEN = []\<rparr>"
  have a: "authCheck ?cfg None"
    by (simp add: authCheck_def)
  have d: "dirArg (orEmpty (JStr ''../etc'')) = Some ''../etc''"
    by (simp add: dirArg_def orEmpty_def)
  have u: "\<not> isPathInside ''/app'' ''/data''
             (resolve ''/app'' [resolve ''/app'' [''/data'', ''../etc''], basename ''a.drawnix''])"
    by code_simp
  have r: "\<not> isPathInside ''/app'' ''/data'' (resolve ''/app'' [''/data'', ''../secret''])"
    by code_simp
  show ?thesis
    using invalid_path_no_io [of ?cfg None
        "\<lparr>filename = JStr ''a.drawnix'', content = JStr ''X'', dir = JStr ''../etc''\<rparr>"
        "''a.drawnix''" "''../etc''" 9 "Dir [(''data'', Dir [])]" "Some ''../secret''"
        "''../secret''"] a d u r
    by (simp add: orEmpty_def)
qed



section \<open>Writing, then reading\<close>



section \<open>Errors and the answers they get\<close>

text \<open>
  Claim C7, as stated, has every I/O error of a read answered 500 \<open>ReadFailed\<close>. The
  \<open>catch\<close> of the read handler answers 404 \<open>Not Found\<close> whatever the error: here the
  path read is a directory, \<open>readFile\<close> fails with \<open>EISDIR\<close>, and the answer is 404.
\<close>

theorem read_error_is_not_found:
  "readFile (Dir [(''data'', Dir [(''sub'', Dir [])])]) ''/app'' ''/data/sub'' = Inl EISDIR
   \<and> handleReadFile \<lparr>cwd = ''/app'', BASE_DIR = ''/data'', REQ_TOKEN = []\<rparr> None (Some ''sub'')
        (Dir [(''data'', Dir [(''sub'', Dir [])])])
       = (Fail 404 ''Not Found'', Dir [(''data'', Dir [(''sub'', Dir [])])], [OpReadFile ''/data/sub''])"
  by code_simp

text \<open>
  Claim C7, amended. A request that is not authorized is answered 401 \<open>Unauthorized\<close>
  by each route. An upload whose file name is absent, empty or not a string is answered
  400 \<open>filename required\<close>, a read whose path is empty 400 \<open>path required\<close>; a candidate
  path that fails the containment check is answered 400 \<open>Invalid path\<close>. Any error of
  \<open>mkdir\<close> or \<open>writeFile\<close> in an upload is answered 500 \<open>Write failed\<close>, any error of
  \<open>mkdir\<close> or of the directory walk in a listing 500 \<open>List failed\<close>. Any error of
  \<open>readFile\<close> in a read, the file being absent or not readable, is answered
  404 \<open>Not Found\<close>; a read is never answered 500.
\<close>

theorem error_statuses:
  "(\<not> authCheck cfg hdr \<longrightarrow>
       fst (handleUpload cfg now hdr b t) = Fail 401 ''Unauthorized''
     \<and> fst (handleListFiles cfg hdr t) = Fail 401 ''Unauthorized''
     \<and> fst (handleReadFile cfg hdr q t) = Fail 401 ''Unauthorized'')
   \<and> (authCheck cfg hdr \<and> (\<forall>f. orEmpty (filename b) = JStr f \<longrightarrow> f = []) \<longrightarrow>
       fst (handleUpload cfg now hdr b t) = Fail 400 ''filename required'')
   \<and> (authCheck cfg hdr \<and> dropWhile (\<lambda>c. c = CHR ''/'') (case q of None \<Rightarrow> [] | Some p \<Rightarrow> p) = [] \<longrightarrow>
       fst (handleReadFile cfg hdr q t) = Fail 400 ''path required'')
   \<and> (authCheck cfg hdr \<and> orEmpty (filename b) = JStr f \<and> f \<noteq> []
       \<and> dirArg (orEmpty (dir b)) = Some d
       \<and> \<not> isPathInside (cwd cfg) (BASE_DIR cfg)
             (resolve (cwd cfg) [resolve (cwd cfg) [BASE_DIR cfg, d], basename f]) \<longrightarrow>
       fst (handleUpload cfg now hdr b t) = Fail 400 ''Invalid path'')
   \<and> (authCheck cfg hdr
       \<and> dropWhile (\<lambda>c. c = CHR ''/'') (case q of None \<Rightarrow> [] | Some p \<Rightarrow> p) = rel \<and> rel \<noteq> []
       \<and> \<not> isPathInside (cwd cfg) (BASE_DIR cfg) (resolve (cwd cfg) [BASE_DIR cfg, rel]) \<longrightarrow>
       fst (handleReadFile cfg hdr q t) = Fail 400 ''Invalid path'')
   \<and> (authCheck cfg hdr \<and> orEmpty (filename b) = JStr f \<and> f \<noteq> []
       \<and> dirArg (orEmpty (dir b)) = Some d
       \<and> isPathInside (cwd cfg) (BASE_DIR cfg)
             (resolve (cwd cfg) [resolve (cwd cfg) [BASE_DIR cfg, d], basename f])
       \<and> (mkdir t (cwd cfg) (resolve (cwd cfg) [BASE_DIR cfg, d]) = Inl e
          \<or> mkdir t (cwd cfg) (resolve (cwd cfg) [BASE_DIR cfg, d]) = Inr t1
            \<and> String (orEmpty (content b)) = Some data
            \<and> writeFile t1 (cwd cfg) now
                 (resolve (cwd cfg) [resolve (cwd cfg) [BASE_DIR cfg, d], basename f]) data = Inl e) \<longrightarrow>
       fst (handleUpload cfg now hdr b t) = Fail 500 ''Write failed'')
   \<and> (authCheck cfg hdr
       \<and> (mkdir t (cwd cfg) (BASE_DIR cfg) = Inl e
          \<or> mkdir t (cwd cfg) (BASE_DIR cfg) = Inr t1
            \<and> listDrawnixFiles t1 (cwd cfg) (BASE_DIR cfg) (BASE_DIR cfg) = Inl e) \<longrightarrow>
       fst (handleListFiles cfg hdr t) = Fail 500 ''List failed'')
   \<and> (authCheck cfg hdr
       \<and> dropWhile (\<lambda>c. c = CHR ''/'') (case q of None \<Rightarrow> [] | Some p \<Rightarrow> p) = rel \<and> rel \<noteq> []
       \<and> isPathInside (cwd cfg) (BASE_DIR cfg) (resolve (cwd cfg) [BASE_DIR cfg, rel])
       \<and> readFile t (cwd cfg) (resolve (cwd cfg) [BASE_DIR cfg, rel]) = Inl e \<longrightarrow>
       fst (handleReadFile cfg hdr q t) = Fail 404 ''Not Found'')
   \<and> status (fst (handleReadFile cfg hdr q t)) \<noteq> Some 500"
proof -
  have 1: "\<not> authCheck cfg hdr \<Longrightarrow>
       fst (handleUpload cfg now hdr b t) = Fail 401 ''Unauthorized''
     \<and> fst (handleListFiles cfg hdr t) = Fail 401 ''Unauthorized''
     \<and> fst (handleReadFile cfg hdr q t) = Fail 401 ''Unauthorized''"
    by (simp add: handleUpload_def handleListFiles_def handleReadFile_def)
  have 2: "authCheck cfg hdr \<and> (\<forall>f. orEmpty (filename b) = JStr f \<longrightarrow> f = []) \<Longrightarrow>
       fst (handleUpload cfg now hdr b t) = Fail 400 ''filename required''"
    by (cases "orEmpty (filename b)") (simp_all add: handleUpload_def)
  have 3: "authCheck cfg hdr \<and> dropWhile (\<lambda>c. c = CHR ''/'') (case q of None \<Rightarrow> [] | Some p \<Rightarrow> p) = [] \<Longrightarrow>
       fst (handleReadFile cfg hdr q t) = Fail 400 ''path required''"
    by (simp add: handleReadFile_def)
  have 4: "authCheck cfg hdr \<and> orEmpty (filename b) = JStr f \<and> f \<noteq> []
       \<and> dirArg (orEmpty (dir b)) = Some d
       \<and> \<not> isPathInside (cwd cfg) (BASE_DIR cfg)
             (resolve (cwd cfg) [resolve (cwd cfg) [BASE_DIR cfg, d], basename f]) \<Longrightarrow>
       fst (handleUpload cfg now hdr b t) = Fail 400 ''Invalid path''"
    by (simp add: handleUpload_def Let_def)
  have 5: "authCheck cfg hdr
       \<and> dropWhile (\<lambda>c. c = CHR ''/'') (case q of None \<Rightarrow> [] | Some p \<Rightarrow> p) = rel \<and> rel \<noteq> []
       \<and> \<not> isPathInside (cwd cfg) (BASE_DIR cfg) (resolve (cwd cfg) [BASE_DIR cfg, rel]) \<Longrightarrow>
       fst (handleReadFile cfg hdr q t) = Fail 400 ''Invalid path''"
    by (auto simp: handleReadFile_def Let_def)
  have 6: "authCheck cfg hdr \<and> orEmpty (filename b) = JStr f \<and> f \<noteq> []
       \<and> dirArg (orEmpty (dir b)) = Some d
       \<and> isPathInside (cwd cfg) (BASE_DIR cfg)
             (resolve (cwd cfg) [resolve (cwd cfg) [BASE_DIR cfg, d], basename f])
       \<and> (mkdir t (cwd cfg) (resolve (cwd cfg) [BASE_DIR cfg, d]) = Inl e
          \<or> mkdir t (cwd cfg) (resolve (cwd cfg) [BASE_DIR cfg, d]) = Inr t1
            \<and> String (orEmpty (content b)) = Some data
            \<and> writeFile t1 (cwd cfg) now
                 (resolve (cwd cfg) [resolve (cwd cfg) [BASE_DIR cfg, d], basename f]) data = Inl e) \<Longrightarrow>
       fst (handleUpload cfg now hdr b t) = Fail 500 ''Write failed''"
    by (auto simp: handleUpload_def Let_def)
  have 7: "authCheck cfg hdr
       \<and> (mkdir t (cwd cfg) (BASE_DIR cfg) = Inl e
          \<or> mkdir t (cwd cfg) (BASE_DIR cfg) = Inr t1
            \<and> listDrawnixFiles t1 (cwd cfg) (BASE_DIR cfg) (BASE_DIR cfg) = Inl e) \<Longrightarrow>
       fst (handleListFiles cfg hdr t) = Fail 500 ''List failed''"
    by (auto simp: handleListFiles_def)
  have 8: "authCheck cfg hdr
       \<and> dropWhile (\<lambda>c. c = CHR ''/'') (case q of None \<Rightarrow> [] | Some p \<Rightarrow> p) = rel \<and> rel \<noteq> []
       \<and> isPathInside (cwd cfg) (BASE_DIR cfg) (resolve (cwd cfg) [BASE_DIR cfg, rel])
       \<and> readFile t (cwd cfg) (resolve (cwd cfg) [BASE_DIR cfg, rel]) = Inl e \<Longrightarrow>
       fst (handleReadFile cfg hdr q t) = Fail 404 ''Not Found''"
    by (auto simp: handleReadFile_def Let_def)
  have 9: "status (fst (handleReadFile cfg hdr q t)) \<noteq> Some 500"
    by (auto simp: handleReadFile_def Let_def split: sum.splits)
  show ?thesis using 1 2 3 4 5 6 7 8 9 by blast
qed

theorem error_statuses_witness:
  "fst (handleUpload \<lparr>cwd = ''/app'', BASE_DIR = ''/data'', REQ_TOKEN = ''s3''\<rparr> 9 None
         \<lparr>filename = JStr ''a.drawnix'', content = JStr ''X'', dir = JUndefined\<rparr>
         (Dir [(''data'', Dir [])])) = Fail 401 ''Unauthorized''
   \<and> fst (handleUpload \<lparr>cwd = ''/app'', BASE_DIR = ''/data'', REQ_TOKEN = []\<rparr> 9 None
         \<lparr>filename = JUndefined, content = JStr ''X'', dir = JUndefined\<rparr>
         (Dir [(''data'', Dir [])])) = Fail 400 ''filename required''
   \<and> fst (handleReadFile \<lparr>cwd = ''/app'', BASE_DIR = ''/data'', REQ_TOKEN = []\<rparr> None None
         (Dir [(''data'', Dir [])])) = Fail 400 ''path required''
   \<and> fst (handleUpload \<lparr>cwd = ''/app'', BASE_DIR = ''/data'', REQ_TOKEN = []\<rparr> 9 None
         \<lparr>filename = JStr ''a.drawnix'', content = JStr ''X'', dir = JStr ''../etc''\<rparr>
         (Dir [(''data'', Dir [])])) = Fail 400 ''Invalid path''
   \<and> fst (handleReadFile \<lparr>cwd = ''/app'', BASE_DIR = ''/data'', REQ_TOKEN = []\<rparr> None
         (Some ''../secret'') (Dir [(''data'', Dir [])])) = Fail 400 ''Invalid path''
   \<and> fst (handleUpload \<lparr>cwd = ''/app'', BASE_DIR = ''/data'', REQ_TOKEN = []\<rparr> 9 None
         \<lparr>filename = JStr ''a.drawnix'', content = JStr ''X'', dir = JUndefined\<rparr>
         (Dir [(''data'', File [] 0)])) = Fail 500 ''Write failed''
   \<and> fst (handleUpload \<lparr>cwd = ''/app'', BASE_DIR = ''/data'', REQ_TOKEN = []\<rparr> 9 None
         \<lparr>filename = JStr ''a.drawnix'', content = JStr ''X'', dir = JUndefined\<rparr>
         (Dir [(''data'', Dir [(''a.drawnix'', Dir [])])])) = Fail 500 ''Write failed''
   \<and> fst (handleListFiles \<lparr>cwd = ''/app'', BASE_DIR = ''/data'', REQ_TOKEN = []\<rparr> None
         (Dir [(''data'', File [] 0)])) = Fail 500 ''List failed''
   \<and> fst (handleReadFile \<lparr>cwd = ''/app'', BASE_DIR = ''/data'', REQ_TOKEN = []\<rparr> None
         (Some ''a.drawnix'') (Dir [(''data'', Dir [])])) = Fail 404 ''Not Found''"
proof -
  let ?open = "\<lparr>cwd = ''/app'', BASE_DIR = ''/data'', REQ_TOKEN = []\<rparr>"
  let ?b = "\<lparr>filename = JStr ''a.drawnix'', content = JStr ''X'', dir = JUndefined\<rparr>"
  let ?empty = "Dir [(''data'', Dir [])]"
  note T = error_statuses [where now = 9 and e = EEXIST and data = "''X''"]
  have a: "authCheck ?open None" by (simp add: authCheck_def)
  have inside: "isPathInside ''/app'' ''/data''
        (resolve ''/app'' [resolve ''/app'' [''/data'', []], basename ''a.drawnix''])"
    by code_simp
  have w1: "fst (handleUpload \<lparr>cwd = ''/app'', BASE_DIR = ''/data'', REQ_TOKEN = ''s3''\<rparr> 9 None ?b ?empty)
            = Fail 401 ''Unauthorized''"
    using T [where cfg = "\<lparr>cwd = ''/app'', BASE_DIR = ''/data'', REQ_TOKEN = ''s3''\<rparr>" and hdr = None
        and b = ?b and t = ?empty and q = None and f = "[]" and d = "[]" and rel = "[]" and ?t1.0 = ?empty]
    by (simp add: authCheck_def)
  have w2: "fst (handleUpload ?open 9 None
              \<lparr>filename = JUndefined, content = JStr ''X'', dir = JUndefined\<rparr> ?empty)
            = Fail 400 ''filename required''"
    using a T [where cfg = ?open and hdr = None
        and b = "\<lparr>filename = JUndefined, content = JStr ''X'', dir = JUndefined\<rparr>"
        and t = ?empty and q = None and f = "[]" and d = "[]" and rel = "[]" and ?t1.0 = ?empty]
    by (simp add: orEmpty_def)
  have w3: "fst (handleReadFile ?open None None ?empty) = Fail 400 ''path required''"
    using a T [where cfg = ?open and hdr = None and b = ?b
        and t = ?empty and q = None and f = "[]" and d = "[]" and rel = "[]" and ?t1.0 = ?empty]
    by simp
  have out_u: "\<not> isPathInside ''/app'' ''/data''
        (resolve ''/app'' [resolve ''/app'' [''/data'', ''../etc''], basename ''a.drawnix''])"
    by code_simp
  have out_r: "\<not> isPathInside ''/app'' ''/data'' (resolve ''/app'' [''/data'', ''../secret''])"
    by code_simp
  have w45: "fst (handleUpload ?open 9 None
              \<lparr>filename = JStr ''a.drawnix'', content = JStr ''X'', dir = JStr ''../etc''\<rparr> ?empty)
            = Fail 400 ''Invalid path''
          \<and> fst (handleReadFile ?open None (Some ''../secret'') ?empty) = Fail 400 ''Invalid path''"
    using a out_u out_r T [where cfg = ?open and hdr = None
        and b = "\<lparr>filename = JStr ''a.drawnix'', content = JStr ''X'', dir = JStr ''../etc''\<rparr>"
        and t = ?empty and q = "Some ''../secret''" and f = "''a.drawnix''" and d = "''../etc''"
        and rel = "''../secret''" and ?t1.0 = ?empty]
    by (simp add: orEmpty_def dirArg_def)
  have mk: "mkdir (Dir [(''data'', File [] 0)]) ''/app'' (resolve ''/app'' [''/data'', []]) = Inl EEXIST"
    by code_simp
  have mk': "mkdir (Dir [(''data'', File [] 0)]) ''/app'' ''/data'' = Inl EEXIST"
    by code_simp
  have w67: "fst (handleUpload ?open 9 None ?b (Dir [(''data'', File [] 0)])) = Fail 500 ''Write failed''
          \<and> fst (handleListFiles ?open None (Dir [(''data'', File [] 0)])) = Fail 500 ''List failed''"
    using a inside mk mk' T [where cfg = ?open and hdr = None and b = ?b
        and t = "Dir [(''data'', File [] 0)]" and q = None and f = "''a.drawnix''" and d = "[]"
        and rel = "[]" and ?t1.0 = ?empty]
    by (simp add: orEmpty_def dirArg_def)
  let ?blocked = "Dir [(''data'', Dir [(''a.drawnix'', Dir [])])]"
  have mk2: "mkdir ?blocked ''/app'' (resolve ''/app'' [''/data'', []]) = Inr ?blocked"
    by code_simp
  have wr: "writeFile ?blocked ''/app'' 9
        (resolve ''/app'' [resolve ''/app'' [''/data'', []], basename ''a.drawnix'']) ''X'' = Inl EISDIR"
    by code_simp
  have w6b: "fst (handleUpload ?open 9 None ?b ?blocked) = Fail 500 ''Write failed''"
    using a inside mk2 wr error_statuses [where now = 9 and e = EISDIR and data = "''X''"
        and cfg = ?open and hdr = None and b = ?b
        and t = ?blocked and q = None and f = "''a.drawnix''" and d = "[]"
        and rel = "[]" and ?t1.0 = ?blocked]
    by (simp add: orEmpty_def dirArg_def)
  have ins_r: "isPathInside ''/app'' ''/data'' (resolve ''/app'' [''/data'', ''a.drawnix''])"
    by code_simp
  have rd: "readFile ?empty ''/app'' (resolve ''/app'' [''/data'', ''a.drawnix'']) = Inl ENOENT"
    by code_simp
  have w8: "fst (handleReadFile ?open None (Some ''a.drawnix'') ?empty) = Fail 404 ''Not Found''"
    using a ins_r rd error_statuses [where now = 9 and e = ENOENT and data = "''X''"
        and cfg = ?open and hdr = None and b = ?b
        and t = ?empty and q = "Some ''a.drawnix''" and f = "''a.drawnix''" and d = "[]"
        and rel = "''a.drawnix''" and ?t1.0 = ?empty]
    by simp
  show ?thesis using w1 w2 w3 w45 w67 w6b w8 by simp
qed

section \<open>Start of the process: build, then listen\<close>

text \<open>
  Claim C8, as stated, has the build step run at start exactly when the force flag is
  set or the entry document is absent. \<open>main\<close> first makes the storage root, and an
  error there ends the process before \<open>buildFrontendIfNeeded\<close> is called: with the force
  flag set and a storage root \<open>/f/uploads\<close> below the regular file \<open>/f\<close>, the process
  exits with code 1 and the build step has not run.
\<close>

theorem root_creation_failure_skips_build:
  "ensureDirSync (Dir [(''f'', File [] 0)]) ''/app'' ''/f/uploads'' = Inl ENOTDIR
   \<and> main \<lparr>cwd = ''/app'', BASE_DIR = ''/f/uploads'', REQ_TOKEN = []\<rparr> True ''/app/scripts'' 8080
        (\<lambda>t. (Some 0, t)) (Dir [(''f'', File [] 0)])
       = ([Exited 1], Dir [(''f'', File [] 0)])"
  by code_simp

text \<open>
  Claim C8, amended. Once the storage root exists or has been made, the build step runs
  exactly when the force flag is set or the entry document \<open>index.html\<close> is absent. The
  server listens only after the build step has returned, and with status 0 if it ran; a
  build that ends with another status, or none, ends the process with a non-zero exit
  code and the server never listens. With the entry document present and the force flag
  unset the build step does not run and the server listens at once.
\<close>

theorem build_before_listen:
  assumes "ensureDirSync t (cwd cfg) (BASE_DIR cfg) = Inr t1"
  shows "(Built \<in> set (fst (main cfg FORCE_BUILD scriptDir PORT build t))
           \<longleftrightarrow> FORCE_BUILD \<or> \<not> existsSync t1 (cwd cfg) (INDEX_HTML (cwd cfg) scriptDir))
       \<and> (Listening PORT \<in> set (fst (main cfg FORCE_BUILD scriptDir PORT build t)) \<longrightarrow>
            fst (main cfg FORCE_BUILD scriptDir PORT build t) = [Listening PORT]
          \<or> fst (main cfg FORCE_BUILD scriptDir PORT build t) = [Built, Listening PORT]
            \<and> fst (build t1) = Some 0)
       \<and> ((FORCE_BUILD \<or> \<not> existsSync t1 (cwd cfg) (INDEX_HTML (cwd cfg) scriptDir))
            \<and> fst (build t1) \<noteq> Some 0 \<longrightarrow>
            (\<exists>code. code \<noteq> 0
               \<and> fst (main cfg FORCE_BUILD scriptDir PORT build t) = [Built, Exited code])
            \<and> (\<forall>p. Listening p \<notin> set (fst (main cfg FORCE_BUILD scriptDir PORT build t))))
       \<and> (\<not> FORCE_BUILD \<and> existsSync t1 (cwd cfg) (INDEX_HTML (cwd cfg) scriptDir) \<longrightarrow>
            main cfg FORCE_BUILD scriptDir PORT build t = ([Listening PORT], t1))"
  using assms
  by (cases "build t1"; cases "fst (build t1)")
     (auto simp: main_def buildFrontendIfNeeded_def Let_def split: option.splits)

theorem build_before_listen_witness:
  "main \<lparr>cwd = ''/app'', BASE_DIR = ''/data'', REQ_TOKEN = []\<rparr> False ''/app/scripts'' 8080
     (\<lambda>t. (Some 0, t))
     (Dir [(''data'', Dir []),
           (''app'', Dir [(''dist'', Dir [(''apps'', Dir [(''web'',
              Dir [(''index.html'', File ''<html>'' 1)])])])])])
   = ([Listening 8080],
      Dir [(''data'', Dir []),
           (''app'', Dir [(''dist'', Dir [(''apps'', Dir [(''web'',
              Dir [(''index.html'', File ''<html>'' 1)])])])])])
   \<and> Built \<in> set (fst (main \<lparr>cwd = ''/app'', BASE_DIR = ''/data'', REQ_TOKEN = []\<rparr> False
        ''/app/scripts'' 8080 (\<lambda>t. (Some 0, t)) (Dir [(''data'', Dir [])])))
   \<and> fst (main \<lparr>cwd = ''/app'', BASE_DIR = ''/data'', REQ_TOKEN = []\<rparr> False
        ''/app/scripts'' 8080 (\<lambda>t. (Some 0, t)) (Dir [(''data'', Dir [])])) = [Built, Listening 8080]
   \<and> (\<exists>code. code \<noteq> 0
        \<and> fst (main \<lparr>cwd = ''/app'', BASE_DIR = ''/data'', REQ_TOKEN = []\<rparr> True
             ''/app/scripts'' 8080 (\<lambda>t. (Some 2, t)) (Dir [(''data'', Dir [])])) = [Built, Exited code])
   \<and> Listening 8080 \<notin> set (fst (main \<lparr>cwd = ''/app'', BASE_DIR = ''/data'', REQ_TOKEN = []\<rparr> True
        ''/app/scripts'' 8080 (\<lambda>t. (Some 2, t)) (Dir [(''data'', Dir [])])))"
proof -
  let ?cfg = "\<lparr>cwd = ''/app'', BASE_DIR = ''/data'', REQ_TOKEN = []\<rparr>"
  let ?built = "Dir [(''data'', Dir []),
           (''app'', Dir [(''dist'', Dir [(''apps'', Dir [(''web'',
              Dir [(''index.html'', File ''<html>'' 1)])])])])]"
  let ?bare = "Dir [(''data'', Dir [])]"
  have e1: "ensureDirSync ?built (cwd ?cfg) (BASE_DIR ?cfg) = Inr ?built" by code_simp
  have e2: "ensureDirSync ?bare (cwd ?cfg) (BASE_DIR ?cfg) = Inr ?bare" by code_simp
  have x1: "existsSync ?built (cwd ?cfg) (INDEX_HTML (cwd ?cfg) ''/app/scripts'')" by code_simp
  have x2: "\<not> existsSync ?bare (cwd ?cfg) (INDEX_HTML (cwd ?cfg) ''/app/scripts'')" by code_simp
  have w1: "main ?cfg False ''/app/scripts'' 8080 (\<lambda>t. (Some 0, t)) ?built = ([Listening 8080], ?built)"
    using build_before_listen [OF e1, of False "''/app/scripts''" 8080 "\<lambda>t. (Some 0, t)"] x1
    by simp
  have w2: "Built \<in> set (fst (main ?cfg False ''/app/scripts'' 8080 (\<lambda>t. (Some 0, t)) ?bare))"
    using build_before_listen [OF e2, of False "''/app/scripts''" 8080 "\<lambda>t. (Some 0, t)"] x2
    by simp
  have l2: "Listening 8080 \<in> set (fst (main ?cfg False ''/app/scripts'' 8080 (\<lambda>t. (Some 0, t)) ?bare))"
    by code_simp
  have w3: "fst (main ?cfg False ''/app/scripts'' 8080 (\<lambda>t. (Some 0, t)) ?bare) = [Built, Listening 8080]"
    using build_before_listen [OF e2, of False "''/app/scripts''" 8080 "\<lambda>t. (Some 0, t)"] w2 l2
    by auto
  have w4: "(\<exists>code. code \<noteq> 0
        \<and> fst (main ?cfg True ''/app/scripts'' 8080 (\<lambda>t. (Some 2, t)) ?bare) = [Built, Exited code])
      \<and> Listening 8080 \<notin> set (fst (main ?cfg True ''/app/scripts'' 8080 (\<lambda>t. (Some 2, t)) ?bare))"
    using build_before_listen [OF e2, of True "''/app/scripts''" 8080 "\<lambda>t. (Some 2, t)"]
    by simp
  show ?thesis using w1 w2 w3 w4 by simp
qed

section \<open>The content of an upload\<close>

text \<open>
  Claim C9, as stated, has every content value that is not a string turned into its
  string form before it is written, with no type error. A JSON object with a member
  named \<open>toString\<close> has no string form: \<open>String(content)\<close> throws a \<open>TypeError\<close> inside
  the \<open>try\<close>, after the directory has been made, and the upload is answered
  500 \<open>Write failed\<close>.
\<close>

theorem content_without_string_form:
  "String (JObj [(''toString'', JNull)]) = None
   \<and> handleUpload \<lparr>cwd = ''/app'', BASE_DIR = ''/data'', REQ_TOKEN = []\<rparr> 9 None
        \<lparr>filename = JStr ''a.drawnix'', content = JObj [(''toString'', JNull)], dir = JUndefined\<rparr>
        (Dir [(''data'', Dir [])])
       = (Fail 500 ''Write failed'', Dir [(''data'', Dir [])], [OpMkdir ''/data''])"
  by code_simp

text \<open>
  Claim C9, amended. Of the fields of an upload only the file name is required: the
  answer 400 \<open>filename required\<close> is given exactly to an authorized request whose file
  name is absent, empty or not a string, whatever the content. A content that is absent
  or falsy stands for the empty string, and a content with a string form is used through
  that form only: the handler does with it what it does with the string. When the upload
  succeeds, the file written holds that string and the size returned is its length in
  bytes.
\<close>

theorem content_coercion:
  "(\<not> truthy c \<longrightarrow> String (orEmpty c) = Some [])
   \<and> (String (orEmpty c) = Some s \<longrightarrow>
        handleUpload cfg now hdr (b\<lparr>content := c\<rparr>) t
        = handleUpload cfg now hdr (b\<lparr>content := JStr s\<rparr>) t)
   \<and> (handleUpload cfg now hdr b t = (UploadOk p n, t', ops) \<longrightarrow>
        (\<exists>d t1 data. String (orEmpty (content b)) = Some data \<and> n = length data
           \<and> mkdir t (cwd cfg) d = Inr t1 \<and> writeFile t1 (cwd cfg) now p data = Inr t'
           \<and> ops = [OpMkdir d, OpWriteFile p data]))
   \<and> (fst (handleUpload cfg now hdr b t) = Fail 400 ''filename required''
        \<longleftrightarrow> authCheck cfg hdr \<and> (\<forall>f. orEmpty (filename b) = JStr f \<longrightarrow> f = []))"
proof -
  have 1: "\<not> truthy c \<Longrightarrow> String (orEmpty c) = Some []" by (simp add: orEmpty_def)
  have 2: "handleUpload cfg now hdr (b\<lparr>content := c\<rparr>) t
        = handleUpload cfg now hdr (b\<lparr>content := JStr s\<rparr>) t" if "String (orEmpty c) = Some s"
  proof -
    have "String (orEmpty (JStr s)) = Some s" by (simp add: orEmpty_def)
    then show ?thesis using that
      by (simp add: handleUpload_def Let_def split: jsval.splits option.splits sum.splits)
  qed
  have 3: "\<exists>d t1 data. String (orEmpty (content b)) = Some data \<and> n = length data
           \<and> mkdir t (cwd cfg) d = Inr t1 \<and> writeFile t1 (cwd cfg) now p data = Inr t'
           \<and> ops = [OpMkdir d, OpWriteFile p data]"
    if "handleUpload cfg now hdr b t = (UploadOk p n, t', ops)"
    using upload_ok[OF that] by blast
  have 4: "fst (handleUpload cfg now hdr b t) = Fail 400 ''filename required''
        \<longleftrightarrow> authCheck cfg hdr \<and> (\<forall>f. orEmpty (filename b) = JStr f \<longrightarrow> f = [])"
    by (cases "orEmpty (filename b)")
       (auto simp: handleUpload_def Let_def split: sum.splits option.splits)
  show ?thesis using 1 2 3 4 by blast
qed

theorem content_coercion_witness:
  "String (orEmpty JNull) = Some []
   \<and> handleUpload \<lparr>cwd = ''/app'', BASE_DIR = ''/data'', REQ_TOKEN = []\<rparr> 9 None
        \<lparr>filename = JStr ''a.drawnix'', content = JUndefined, dir = JUndefined\<rparr>
        (Dir [(''data'', Dir [])])
       = (UploadOk ''/data/a.drawnix'' 0, Dir [(''data'', Dir [(''a.drawnix'', File [] 9)])],
          [OpMkdir ''/data'', OpWriteFile ''/data/a.drawnix'' []])
   \<and> handleUpload \<lparr>cwd = ''/app'', BASE_DIR = ''/data'', REQ_TOKEN = []\<rparr> 9 None
        \<lparr>filename = JStr ''a.drawnix'', content = JArr [JNum ''1'', JNull, JBool True],
         dir = JUndefined\<rparr>
        (Dir [(''data'', Dir [])])
       = (UploadOk ''/data/a.drawnix'' 7, Dir [(''data'', Dir [(''a.drawnix'', File ''1,,true'' 9)])],
          [OpMkdir ''/data'', OpWriteFile ''/data/a.drawnix'' ''1,,true''])
   \<and> (\<exists>d t1 data. String (orEmpty (JArr [JNum ''1'', JNull, JBool True])) = Some data
         \<and> 7 = length data
         \<and> mkdir (Dir [(''data'', Dir [])]) ''/app'' d = Inr t1
         \<and> writeFile t1 ''/app'' 9 ''/data/a.drawnix'' data
             = Inr (Dir [(''data'', Dir [(''a.drawnix'', File ''1,,true'' 9)])]))
   \<and> fst (handleUpload \<lparr>cwd = ''/app'', BASE_DIR = ''/data'', REQ_TOKEN = []\<rparr> 9 None
        \<lparr>filename = JStr ''a.drawnix'', content = JUndefined, dir = JUndefined\<rparr>
        (Dir [(''data'', Dir [])])) \<noteq> Fail 400 ''filename required''
   \<and> fst (handleUpload \<lparr>cwd = ''/app'', BASE_DIR = ''/data'', REQ_TOKEN = []\<rparr> 9 None
        \<lparr>filename = JNum ''7'', content = JStr ''X'', dir = JUndefined\<rparr>
        (Dir [(''data'', Dir [])])) = Fail 400 ''filename required''"
proof -
  let ?cfg = "\<lparr>cwd = ''/app'', BASE_DIR = ''/data'', REQ_TOKEN = []\<rparr>"
  let ?b = "\<lparr>filename = JStr ''a.drawnix'', content = JStr ''X'', dir = JUndefined\<rparr>"
  let ?t = "Dir [(''data'', Dir [])]"
  let ?arr = "JArr [JNum ''1'', JNull, JBool True]"
  have a: "authCheck ?cfg None" by (simp add: authCheck_def)
  have w1: "String (orEmpty JNull) = Some []"
    using content_coercion [of JNull] by simp
  have e0: "handleUpload ?cfg 9 None (?b\<lparr>content := JStr []\<rparr>) ?t
       = (UploadOk ''/data/a.drawnix'' 0, Dir [(''data'', Dir [(''a.drawnix'', File [] 9)])],
          [OpMkdir ''/data'', OpWriteFile ''/data/a.drawnix'' []])"
    by code_simp
  have s0: "String (orEmpty JUndefined) = Some []"
    using content_coercion [of JUndefined] by simp
  have w2: "handleUpload ?cfg 9 None (?b\<lparr>content := JUndefined\<rparr>) ?t
       = (UploadOk ''/data/a.drawnix'' 0, Dir [(''data'', Dir [(''a.drawnix'', File [] 9)])],
          [OpMkdir ''/data'', OpWriteFile ''/data/a.drawnix'' []])"
    using content_coercion [of JUndefined "[]" ?cfg 9 None ?b ?t] s0 e0 by simp
  have s1: "String (orEmpty ?arr) = Some ''1,,true''" by code_simp
  have e1: "handleUpload ?cfg 9 None (?b\<lparr>content := JStr ''1,,true''\<rparr>) ?t
       = (UploadOk ''/data/a.drawnix'' 7, Dir [(''data'', Dir [(''a.drawnix'', File ''1,,true'' 9)])],
          [OpMkdir ''/data'', OpWriteFile ''/data/a.drawnix'' ''1,,true''])"
    by code_simp
  have w3: "handleUpload ?cfg 9 None (?b\<lparr>content := ?arr\<rparr>) ?t
       = (UploadOk ''/data/a.drawnix'' 7, Dir [(''data'', Dir [(''a.drawnix'', File ''1,,true'' 9)])],
          [OpMkdir ''/data'', OpWriteFile ''/data/a.drawnix'' ''1,,true''])"
    using content_coercion [of ?arr "''1,,true''" ?cfg 9 None ?b ?t] s1 e1 by simp
  have w4: "\<exists>d t1 data. String (orEmpty ?arr) = Some data \<and> 7 = length data
         \<and> mkdir ?t ''/app'' d = Inr t1
         \<and> writeFile t1 ''/app'' 9 ''/data/a.drawnix'' data
             = Inr (Dir [(''data'', Dir [(''a.drawnix'', File ''1,,true'' 9)])])"
    using content_coercion [of ?arr "''1,,true''" ?cfg 9 None "?b\<lparr>content := ?arr\<rparr>" ?t
        "''/data/a.drawnix''" 7 "Dir [(''data'', Dir [(''a.drawnix'', File ''1,,true'' 9)])]"
        "[OpMkdir ''/data'', OpWriteFile ''/data/a.drawnix'' ''1,,true'']"] w3
    by auto
  have w5: "fst (handleUpload ?cfg 9 None (?b\<lparr>content := JUndefined\<rparr>) ?t)
             \<noteq> Fail 400 ''filename required''"
    using a content_coercion [of JUndefined "[]" ?cfg 9 None "?b\<lparr>content := JUndefined\<rparr>" ?t
        "[]" 0 ?t "[]"]
    by (auto simp: orEmpty_def)
  have w6: "fst (handleUpload ?cfg 9 None
               \<lparr>filename = JNum ''7'', content = JStr ''X'', dir = JUndefined\<rparr> ?t)
             = Fail 400 ''filename required''"
    using a content_coercion [of JUndefined "[]" ?cfg 9 None
        "\<lparr>filename = JNum ''7'', content = JStr ''X'', dir = JUndefined\<rparr>" ?t
        "[]" 0 ?t "[]"]
    by (auto simp: orEmpty_def)
  show ?thesis using w1 w2 w3 w4 w5 w6 by simp
qed



end
